theory Spec2Isabelle
  imports Complex_Main "HOL-Library.Word" "HOL-Library.Sublist"
begin

section \<open>Arrays, buffers and the image library\<close>

text \<open>
  The three scripts read a frame out of a request of the acquisition SDK, view its bytes as
  a NumPy array, and hand it to OpenCV. A NumPy array is a shape together with its elements
  in C order (row-major, the last axis running fastest); the exceptions of NumPy, Python
  and OpenCV (\<^verbatim>\<open>cv2.error\<close>) are values of \<open>error\<close>.
\<close>

datatype error = ValueError | ZeroDivisionError | CvError

type_synonym byte = "8 word"
type_synonym uint16 = "16 word"

record 'a ndarray =
  shape :: "nat list"
  elems :: "'a list"

definition arr_size :: "'a ndarray \<Rightarrow> nat" where
  "arr_size a = length (elems a)"

text \<open>Element \<open>a[r, col, ch]\<close> of a three-dimensional array in C order.\<close>

definition at3 :: "'a ndarray \<Rightarrow> nat \<Rightarrow> nat \<Rightarrow> nat \<Rightarrow> 'a" where
  "at3 a r col ch = elems a ! ((r * (shape a ! 1) + col) * (shape a ! 2) + ch)"

text \<open>
  \<^verbatim>\<open>(ctypes.c_char * image_size).from_address(addr)\<close>: the \<open>image_size\<close> bytes that
  start at the address; \<open>mem i\<close> is the byte at offset \<open>i\<close> from it.
\<close>

definition from_address :: "nat \<Rightarrow> (nat \<Rightarrow> byte) \<Rightarrow> byte list" where
  "from_address image_size mem = map mem [0..<image_size]"

text \<open>Two bytes make one 16-bit sample, low byte first (the byte order of the host).\<close>

fun uint16_le :: "byte list \<Rightarrow> uint16 list" where
  "uint16_le (lo # hi # bs) = (ucast lo + 256 * ucast hi) # uint16_le bs"
| "uint16_le bs = []"

text \<open>
  \<^verbatim>\<open>np.frombuffer(cbuf, dtype=np.uint16)\<close> raises ValueError when the buffer is not a
  whole number of elements; with \<^verbatim>\<open>dtype=np.uint8\<close> every buffer is accepted.
\<close>

definition frombuffer_uint16 :: "byte list \<Rightarrow> error + uint16 ndarray" where
  "frombuffer_uint16 cbuf =
     (if length cbuf mod 2 \<noteq> 0 then Inl ValueError
      else Inr \<lparr>shape = [length cbuf div 2], elems = uint16_le cbuf\<rparr>)"

definition frombuffer_uint8 :: "byte list \<Rightarrow> byte ndarray" where
  "frombuffer_uint8 cbuf = \<lparr>shape = [length cbuf], elems = cbuf\<rparr>"

text \<open>\<^verbatim>\<open>arr.reshape(shp)\<close> keeps the elements and raises ValueError when the sizes differ.\<close>

definition reshape :: "'a ndarray \<Rightarrow> nat list \<Rightarrow> error + 'a ndarray" where
  "reshape a shp =
     (if prod_list shp = arr_size a then Inr \<lparr>shape = shp, elems = elems a\<rparr>
      else Inl ValueError)"

text \<open>
  \<^verbatim>\<open>cv2.convertScaleAbs(src, alpha, beta)\<close> computes, for every element,
  \<open>saturate_cast<uchar>(|src * alpha + beta|)\<close>: the scaled value, its absolute value,
  rounded to the nearest integer (ties to the even one) and saturated to \<open>0..255\<close>.
  The scaling is evaluated here in exact rational arithmetic; lemma
  \<open>cvRound_near\<close> below shows how much evaluation error leaves the result unchanged.
  An array with a single channel comes back without its channel axis, and for an array
  without elements the result is an empty matrix, which Python receives as \<^verbatim>\<open>None\<close>.
\<close>

definition cvRound :: "rat \<Rightarrow> int" where
  "cvRound v =
     (let f = \<lfloor>v\<rfloor>; d = v - of_int f
      in if d < 1 / 2 then f
         else if 1 / 2 < d then f + 1
         else if even f then f else f + 1)"

definition saturate_uchar :: "int \<Rightarrow> byte" where
  "saturate_uchar v = word_of_int (max 0 (min 255 v))"

definition convertScaleAbs_px :: "rat \<Rightarrow> rat \<Rightarrow> uint16 \<Rightarrow> byte" where
  "convertScaleAbs_px alpha beta x = saturate_uchar (cvRound \<bar>of_nat (unat x) * alpha + beta\<bar>)"

definition convertScaleAbs :: "uint16 ndarray \<Rightarrow> rat \<Rightarrow> rat \<Rightarrow> byte ndarray option" where
  "convertScaleAbs src alpha beta =
     (if arr_size src = 0 then None
      else Some \<lparr>shape = (case shape src of
                            [h, w, c] \<Rightarrow> if c = 1 then [h, w] else [h, w, c] | s \<Rightarrow> s),
                 elems = map (convertScaleAbs_px alpha beta) (elems src)\<rparr>)"

text \<open>
  \<^verbatim>\<open>np.vstack(arrays)\<close>: every array is taken as at least two-dimensional, all must agree
  on every axis but the first, and the result stacks them along the first axis. An empty
  sequence and a disagreement raise ValueError.
\<close>

definition atleast_2d :: "nat list \<Rightarrow> nat list" where
  "atleast_2d s = (case s of [] \<Rightarrow> [1, 1] | [n] \<Rightarrow> [1, n] | _ \<Rightarrow> s)"

definition vstack :: "'a ndarray list \<Rightarrow> error + 'a ndarray" where
  "vstack arrs =
     (case arrs of
        [] \<Rightarrow> Inl ValueError
      | a # as \<Rightarrow>
          if list_all (\<lambda>b. tl (atleast_2d (shape b)) = tl (atleast_2d (shape a))) as
          then Inr \<lparr>shape = sum_list (map (\<lambda>b. hd (atleast_2d (shape b))) arrs)
                              # tl (atleast_2d (shape a)),
                    elems = concat (map elems arrs)\<rparr>
          else Inl ValueError)"

section \<open>Requests, printed messages and observable actions\<close>

text \<open>The properties of a completed request that the scripts read.\<close>

record request =
  isOK :: bool
  imageSize :: nat
  imageHeight :: nat
  imageWidth :: nat
  imageChannelCount :: nat
  imageChannelBitDepth :: nat
  imagePixelFormat :: nat
  imageData :: "nat \<Rightarrow> byte"

text \<open>The text handed to \<open>handle_unsupported_format\<close>.\<close>

datatype info =
    ImageInfo nat nat nat nat nat nat nat
  | FormatInfo nat nat
  | InvalidArraySize

text \<open>Every line the scripts print, by what it says.\<close>

datatype message =
    UnsupportedFormatDetected
  | Info info
  | OnlySupports16Bit3Channel
  | PleaseAdjustConfiguration
  | PixelFormatHint
  | CheckForHelp
  | SkippedUnsupportedFrame
  | FrameQueued
  | WaitForFailed int
  | StatisticsInfo
  | FailedToQueueFrame
  | QueuedInitialRequests nat
  | CapturingRawRequests
  | CapturedFrames nat
  | ReceivedInvalidFrame
  | CouldNotRequeue
  | CaptureComplete
  | RecordingSummary nat rat rat
  | NoFramesCaptured
  | SkippingMalformedFrame
  | SavedStitchedImage
  | NothingToSave

text \<open>
  What a script does to the world, in the order it does it: calls of the SDK, output, and
  the two events of the stop flag (\<open>SetStop\<close> is the assignment in the input thread,
  \<open>CheckStop b\<close> an evaluation of the loop guard that reads the flag as \<open>b\<close>).
\<close>

datatype action =
    ImageRequestReset
  | ImageRequestSingle bool
  | ImageRequestWaitFor int
  | Unlock nat
  | StartAcquisition
  | StopAcquisition
  | Print message
  | Imshow "byte ndarray"
  | Imwrite "byte ndarray"
  | WaitKey
  | DestroyAllWindows
  | VideoWrite rat "nat \<times> nat" "byte ndarray list"
  | StartThread
  | SetStop
  | CheckStop bool

text \<open>How a run ends: it returns, an exception escapes, or the loop is still running when
  the recorded behaviour of the device and the user is used up.\<close>

datatype 's outcome = Returned 's | Raised error | StillRunning

text \<open>
  What the surroundings do during one pass of an acquisition loop: the request number
  \<open>imageRequestWaitFor\<close> returns (negative for a timeout or an error), the request
  \<open>getRequest\<close> then gives, whether the \<open>imageRequestSingle\<close> that ends the pass
  succeeds, the reading of \<open>time.time()\<close>, and whether the user presses ENTER during the
  pass (before the wait starts, or from then on).
\<close>

datatype enter_point = NoEnter | EnterBeforeWait | EnterAfterWait

record iteration =
  wait_nr :: int
  delivered :: request
  resubmit_ok :: bool
  clock :: rat
  enter :: enter_point

definition isRequestNrValid :: "int \<Rightarrow> bool" where
  "isRequestNrValid nr = (0 \<le> nr)"

text \<open>The wait of one pass, with the assignment of the input thread where it falls.\<close>

definition wait_actions :: "iteration \<Rightarrow> action list" where
  "wait_actions it =
     (if enter it = EnterBeforeWait then [SetStop] else [])
     @ [ImageRequestWaitFor (wait_nr it)]
     @ (if enter it = EnterAfterWait then [SetStop] else [])"

text \<open>
  Lines 140-143 of \<open>capture_frames\<close> and 97-100 of \<open>capture_blocks\<close>: the request of the
  previous successful wait is unlocked, and one new request is sent (its result is not read).
\<close>

definition release_and_requeue :: "nat option \<Rightarrow> iteration \<Rightarrow> action list" where
  "release_and_requeue previous_request it =
     (case previous_request of None \<Rightarrow> [] | Some k \<Rightarrow> [Unlock k])
     @ [ImageRequestSingle (resubmit_ok it)]"

text \<open>
  The two loops \<^verbatim>\<open>while not stop: body\<close>: the guard reads the flag in the state; each pass
  takes from the list what it meets and gives back what it did and the next state, or the
  exception it raised. The loop is still running when the list is used up before the flag
  is set.
\<close>

fun while_not_stopped ::
  "('s \<Rightarrow> bool) \<Rightarrow> ('s \<Rightarrow> iteration \<Rightarrow> action list \<times> (error + 's)) \<Rightarrow> 's \<Rightarrow> iteration list
     \<Rightarrow> action list \<times> 's outcome" where
  "while_not_stopped stop body s [] =
     (if stop s then ([CheckStop True], Returned s) else ([CheckStop False], StillRunning))"
| "while_not_stopped stop body s (it # its) =
     (if stop s then ([CheckStop True], Returned s)
      else case body s it of
             (acts, Inl e) \<Rightarrow> (CheckStop False # acts, Raised e)
           | (acts, Inr s') \<Rightarrow>
               (let (more, r) = while_not_stopped stop body s' its
                in (CheckStop False # acts @ more, r)))"

text \<open>What a whole session meets: the device while the queue is filled, the user, the clock.\<close>

record session =
  submit_ok :: "nat \<Rightarrow> bool"
  early_enter :: bool
  start_time :: rat
  passes :: "iteration list"
  end_time :: rat

section \<open>example\_balluff\_areascan\_opencv.py\<close>

definition verbose_diagnostic :: "info \<Rightarrow> action list" where
  "verbose_diagnostic info_text =
     [Print UnsupportedFormatDetected, Print (Info info_text), Print OnlySupports16Bit3Channel,
      Print PleaseAdjustConfiguration, Print PixelFormatHint, Print CheckForHelp]"

text \<open>
  \<open>handle_unsupported_format\<close> is the same function in both area-scan scripts (the second
  one only colours its output). The one-element list \<open>warning_flag\<close> is passed in and
  returned.
\<close>

definition handle_unsupported_format :: "info \<Rightarrow> bool \<Rightarrow> action list \<times> bool" where
  "handle_unsupported_format info_text warning_flag =
     (if \<not> warning_flag then (verbose_diagnostic info_text, True)
      else ([Print SkippedUnsupportedFrame], warning_flag))"

text \<open>
  \<open>display_and_save_frame\<close> (lines 73-106). When \<open>convertScaleAbs\<close> gives \<^verbatim>\<open>None\<close>,
  \<^verbatim>\<open>cv2.imshow\<close> raises \<^verbatim>\<open>cv2.error\<close> before anything is shown.
\<close>

definition display_and_save_frame ::
  "request \<Rightarrow> error + action list \<times> byte ndarray option \<times> info option" where
  "display_and_save_frame p_request =
     (let image_size = imageSize p_request;
          height = imageHeight p_request;
          width = imageWidth p_request;
          channels = imageChannelCount p_request;
          bit_depth = imageChannelBitDepth p_request;
          pixel_format = imagePixelFormat p_request
      in case frombuffer_uint16 (from_address image_size (imageData p_request)) of
           Inl e \<Rightarrow> Inl e
         | Inr arr \<Rightarrow>
             let info_str = ImageInfo image_size height width channels bit_depth pixel_format
                              (arr_size arr);
                 expected_size = height * width * channels
             in if arr_size arr \<noteq> expected_size \<or> channels \<noteq> 3 \<or> bit_depth \<noteq> 16
                then Inr ([], None, Some info_str)
                else (case reshape arr [height, width, channels] of
                        Inl e \<Rightarrow> Inl e
                      | Inr arr3 \<Rightarrow>
                          (case convertScaleAbs arr3 (255 / 65535) 0 of
                             None \<Rightarrow> Inl CvError
                           | Some img_cv \<Rightarrow>
                               Inr ([Imshow img_cv, Imwrite img_cv, WaitKey], Some img_cv, None))))"

text \<open>\<^verbatim>\<open>while fi.imageRequestSingle() == acquire.DMR_NO_ERROR\<close>: the device takes
  \<open>capacity\<close> requests and refuses the next.\<close>

fun queue_all :: "nat \<Rightarrow> action list" where
  "queue_all 0 = [ImageRequestSingle False]"
| "queue_all (Suc n) = ImageRequestSingle True # Print FrameQueued # queue_all n"

text \<open>One pass of the \<open>for\<close> loop; the state is \<open>previous_request\<close> (the number of the
  request it refers to) and \<open>unsupported_warning_flag\<close>.\<close>

fun capture_frames_body ::
  "nat \<Rightarrow> nat option \<times> bool \<Rightarrow> iteration \<Rightarrow> action list \<times> (error + nat option \<times> bool)" where
  "capture_frames_body i (previous_request, flag) it =
     (let request_nr = wait_nr it
      in if \<not> isRequestNrValid request_nr
         then ([ImageRequestWaitFor request_nr, Print (WaitForFailed request_nr)],
               Inr (previous_request, flag))
         else
           let p_request = delivered it;
               waited = [ImageRequestWaitFor request_nr];
               rest = release_and_requeue previous_request it
           in if isOK p_request
              then
                (let stats = (if i mod 100 = 0 then [Print StatisticsInfo] else [])
                 in case display_and_save_frame p_request of
                      Inl e \<Rightarrow> (waited @ stats, Inl e)
                    | Inr (acts, frame, warning_info) \<Rightarrow>
                        (case warning_info of
                           None \<Rightarrow>
                             (waited @ stats @ acts @ rest, Inr (Some (nat request_nr), flag))
                         | Some info_text \<Rightarrow>
                             (let (warned, flag') = handle_unsupported_format info_text flag
                              in (waited @ stats @ acts @ warned @ rest,
                                  Inr (Some (nat request_nr), flag')))))
              else (waited @ rest, Inr (Some (nat request_nr), flag)))"

fun capture_frames_loop ::
  "nat \<Rightarrow> nat option \<times> bool \<Rightarrow> iteration list
     \<Rightarrow> action list \<times> (nat option \<times> bool) outcome" where
  "capture_frames_loop i s [] = ([], Returned s)"
| "capture_frames_loop i s (it # its) =
     (case capture_frames_body i s it of
        (acts, Inl e) \<Rightarrow> (acts, Raised e)
      | (acts, Inr s') \<Rightarrow>
          (let (more, r) = capture_frames_loop (Suc i) s' its in (acts @ more, r)))"

text \<open>\<open>capture_frames\<close>, for \<open>frame_count = length its\<close>: the queue is filled (lines
  111-119), the loop runs, the acquisition is stopped (lines 145-146).\<close>

definition capture_frames_setup :: "nat \<Rightarrow> action list \<times> (nat option \<times> bool)" where
  "capture_frames_setup capacity = (queue_all capacity @ [StartAcquisition], (None, False))"

definition capture_frames ::
  "nat \<Rightarrow> iteration list \<Rightarrow> action list \<times> (nat option \<times> bool) outcome" where
  "capture_frames capacity its =
     (let (before, s) = capture_frames_setup capacity;
          (looped, r) = capture_frames_loop 0 s its
      in case r of
           Returned s' \<Rightarrow> (before @ looped @ [StopAcquisition, DestroyAllWindows], Returned s')
         | Raised e \<Rightarrow> (before @ looped, Raised e)
         | StillRunning \<Rightarrow> (before @ looped, StillRunning))"

section \<open>example\_balluff\_areascan\_record\_video.py\<close>

definition MAX_REQUESTS :: nat where
  "MAX_REQUESTS = 20"

text \<open>\<open>wait_for_enter\<close> and \<open>wait_for_user_to_stop\<close>: once ENTER has arrived the thread
  assigns True to the flag and ends.\<close>

definition wait_for_enter :: "bool \<Rightarrow> bool \<Rightarrow> bool" where
  "wait_for_enter pressed flag = (if pressed then True else flag)"

definition convert_frame ::
  "request \<Rightarrow> bool \<Rightarrow> error + action list \<times> byte ndarray option \<times> bool" where
  "convert_frame p_request warning_flag =
     (let image_size = imageSize p_request;
          height = imageHeight p_request;
          width = imageWidth p_request;
          channels = imageChannelCount p_request;
          bit_depth = imageChannelBitDepth p_request
      in if channels \<noteq> 3 \<or> bit_depth \<noteq> 16
         then (let (warned, flag') =
                     handle_unsupported_format (FormatInfo channels bit_depth) warning_flag
               in Inr (warned, None, flag'))
         else case frombuffer_uint16 (from_address image_size (imageData p_request)) of
                Inl e \<Rightarrow> Inl e
              | Inr arr \<Rightarrow>
                  if arr_size arr \<noteq> height * width * channels
                  then (let (warned, flag') = handle_unsupported_format InvalidArraySize warning_flag
                        in Inr (warned, None, flag'))
                  else (case reshape arr [height, width, channels] of
                          Inl e \<Rightarrow> Inl e
                        | Inr arr3 \<Rightarrow>
                            Inr ([], convertScaleAbs arr3 (255 / 65535) 0, warning_flag)))"

text \<open>Lines 90-95: the queue is filled with one request per result of the device.\<close>

fun prime :: "bool list \<Rightarrow> nat \<Rightarrow> action list \<times> nat" where
  "prime [] queued = ([], queued)"
| "prime (result # results) queued =
     (if result
      then (let (acts, q) = prime results (queued + 1) in (ImageRequestSingle True # acts, q))
      else (let (acts, q) = prime results queued
            in (ImageRequestSingle False # Print FailedToQueueFrame # acts, q)))"

record rv_state =
  stop_recording :: bool
  requests :: "(byte ndarray \<times> rat) list"
  warning_flag :: bool

text \<open>Lines 127-128.\<close>

definition requeue :: "iteration \<Rightarrow> action list" where
  "requeue it =
     ImageRequestSingle (resubmit_ok it) # (if resubmit_ok it then [] else [Print CouldNotRequeue])"

text \<open>One pass of the \<open>while\<close> loop of \<open>capture_and_buffer\<close> (lines 111-128).\<close>

definition capture_and_buffer_body ::
  "rv_state \<Rightarrow> iteration \<Rightarrow> action list \<times> (error + rv_state)" where
  "capture_and_buffer_body s it =
     (let s0 = s\<lparr>stop_recording := wait_for_enter (enter it \<noteq> NoEnter) (stop_recording s)\<rparr>;
          request_nr = wait_nr it
      in if \<not> isRequestNrValid request_nr then (wait_actions it, Inr s0)
         else
           let p_request = delivered it
           in if isOK p_request
              then
                (case convert_frame p_request (warning_flag s) of
                   Inl e \<Rightarrow> (wait_actions it, Inl e)
                 | Inr (acts, frame, flag') \<Rightarrow>
                     (case frame of
                        None \<Rightarrow>
                          (wait_actions it @ acts @ [Unlock (nat request_nr)] @ requeue it,
                           Inr (s0\<lparr>warning_flag := flag'\<rparr>))
                      | Some f \<Rightarrow>
                          (let requests' = requests s @ [(f, clock it)];
                               progress = (if length requests' mod 10 = 0
                                           then [Print (CapturedFrames (length requests'))] else [])
                           in (wait_actions it @ acts @ progress @ [Unlock (nat request_nr)]
                                 @ requeue it,
                               Inr (s0\<lparr>requests := requests', warning_flag := flag'\<rparr>)))))
              else (wait_actions it @ [Print ReceivedInvalidFrame, Unlock (nat request_nr)]
                      @ requeue it,
                    Inr s0))"

text \<open>\<^verbatim>\<open>while not stop_recording\<close>, with the loop of above.\<close>

definition capture_and_buffer_loop ::
  "rv_state \<Rightarrow> iteration list \<Rightarrow> action list \<times> rv_state outcome" where
  "capture_and_buffer_loop = while_not_stopped stop_recording capture_and_buffer_body"

text \<open>Lines 134-160: the video is written, or the lack of frames is reported.\<close>

definition save_video ::
  "(byte ndarray \<times> rat) list \<Rightarrow> rat \<Rightarrow> rat \<Rightarrow> action list \<times> unit outcome" where
  "save_video reqs start_t end_t =
     (if reqs \<noteq> []
      then
        (let frames = map fst reqs;
             height = shape (hd frames) ! 0;
             width = shape (hd frames) ! 1;
             size = (width, height);
             duration = end_t - start_t
         in if duration = 0 then ([DestroyAllWindows], Raised ZeroDivisionError)
            else
              let effective_fps = of_nat (length frames) / duration;
                  fps = max effective_fps 1
              in ([DestroyAllWindows, VideoWrite fps size frames,
                   Print (RecordingSummary (length frames) duration effective_fps)],
                  Returned ()))
      else ([Print NoFramesCaptured], Returned ()))"

text \<open>Lines 82-108: the queue is filled, the acquisition and the input thread are started.\<close>

definition capture_and_buffer_setup :: "session \<Rightarrow> action list \<times> rv_state" where
  "capture_and_buffer_setup env =
     (let (primed, queued) = prime (map (submit_ok env) [0..<MAX_REQUESTS]) 0
      in ([ImageRequestReset] @ primed
            @ [Print (QueuedInitialRequests queued), StartAcquisition,
               Print CapturingRawRequests, StartThread]
            @ (if early_enter env then [SetStop] else []),
          \<lparr>stop_recording = wait_for_enter (early_enter env) False,
           requests = [], warning_flag = False\<rparr>))"

text \<open>Lines 130-160.\<close>

definition capture_and_buffer_finish :: "session \<Rightarrow> rv_state \<Rightarrow> action list \<times> unit outcome" where
  "capture_and_buffer_finish env s =
     (let (saved, r) = save_video (requests s) (start_time env) (end_time env)
      in ([StopAcquisition, Print CaptureComplete] @ saved, r))"

definition capture_and_buffer :: "session \<Rightarrow> action list \<times> unit outcome" where
  "capture_and_buffer env =
     (let (before, s) = capture_and_buffer_setup env;
          (looped, r) = capture_and_buffer_loop s (passes env)
      in case r of
           Returned s' \<Rightarrow>
             (let (after, r') = capture_and_buffer_finish env s'
              in (before @ looped @ after, r'))
         | Raised e \<Rightarrow> (before @ looped, Raised e)
         | StillRunning \<Rightarrow> (before @ looped, StillRunning))"

section \<open>example\_balluff\_blockscan.py\<close>

text \<open>
  \<open>extract_block\<close> (lines 48-65). The 16-bit branch returns what \<open>convertScaleAbs\<close>
  gives, a new array or \<^verbatim>\<open>None\<close>. The array of the 8-bit branch is a view of the buffer of
  the request (\<^verbatim>\<open>np.frombuffer\<close> and \<^verbatim>\<open>reshape\<close> do not copy); it is taken here with the
  bytes that the buffer holds when \<open>extract_block\<close> is called.
\<close>

definition extract_block :: "request \<Rightarrow> error + action list \<times> byte ndarray option" where
  "extract_block p_request =
     (let image_size = imageSize p_request;
          height = imageHeight p_request;
          width = imageWidth p_request;
          channels = imageChannelCount p_request;
          bit_depth = imageChannelBitDepth p_request;
          cbuf = from_address image_size (imageData p_request);
          last_axis = (if channels > 1 then channels else 1)
      in if bit_depth > 8
         then (case frombuffer_uint16 cbuf of
                 Inl e \<Rightarrow> Inl e
               | Inr arr \<Rightarrow>
                   if arr_size arr \<noteq> height * width * channels
                   then Inr ([Print SkippingMalformedFrame], None)
                   else (case reshape arr [height, width, last_axis] of
                           Inl e \<Rightarrow> Inl e
                         | Inr arr3 \<Rightarrow> Inr ([], convertScaleAbs arr3 (255 / 65535) 0)))
         else (let arr = frombuffer_uint8 cbuf
               in if arr_size arr \<noteq> height * width * channels
                  then Inr ([Print SkippingMalformedFrame], None)
                  else (case reshape arr [height, width, last_axis] of
                          Inl e \<Rightarrow> Inl e
                        | Inr arr3 \<Rightarrow> Inr ([], Some arr3))))"

record bs_state =
  stop_acquisition :: bool
  previous_request :: "nat option"
  stitched_blocks :: "byte ndarray list"

text \<open>One pass of the \<open>while\<close> loop of \<open>capture_blocks\<close> (lines 82-100);
  \<^verbatim>\<open>stitched_blocks[-40:]\<close> is the last 40 blocks, or all of them when there are fewer.\<close>

definition capture_blocks_body ::
  "bs_state \<Rightarrow> iteration \<Rightarrow> action list \<times> (error + bs_state)" where
  "capture_blocks_body s it =
     (let s0 = s\<lparr>stop_acquisition := wait_for_enter (enter it \<noteq> NoEnter) (stop_acquisition s)\<rparr>;
          request_nr = wait_nr it
      in if \<not> isRequestNrValid request_nr then (wait_actions it, Inr s0)
         else
           let p_request = delivered it;
               rest = release_and_requeue (previous_request s) it;
               s1 = s0\<lparr>previous_request := Some (nat request_nr)\<rparr>
           in if isOK p_request
              then
                (case extract_block p_request of
                   Inl e \<Rightarrow> (wait_actions it, Inl e)
                 | Inr (acts, block) \<Rightarrow>
                     (case block of
                        None \<Rightarrow> (wait_actions it @ acts @ rest, Inr s1)
                      | Some b \<Rightarrow>
                          (let blocks' = stitched_blocks s @ [b]
                           in if length blocks' mod 20 = 0
                              then (case vstack (drop (length blocks' - 40) blocks') of
                                      Inl e \<Rightarrow> (wait_actions it @ acts, Inl e)
                                    | Inr preview \<Rightarrow>
                                        (wait_actions it @ acts @ [Imshow preview, WaitKey] @ rest,
                                         Inr (s1\<lparr>stitched_blocks := blocks'\<rparr>)))
                              else (wait_actions it @ acts @ rest,
                                    Inr (s1\<lparr>stitched_blocks := blocks'\<rparr>)))))
              else (wait_actions it @ rest, Inr s1))"

text \<open>\<^verbatim>\<open>while not stop_acquisition\<close>.\<close>

definition capture_blocks_loop ::
  "bs_state \<Rightarrow> iteration list \<Rightarrow> action list \<times> bs_state outcome" where
  "capture_blocks_loop = while_not_stopped stop_acquisition capture_blocks_body"

text \<open>Lines 105-111: the blocks are stacked and written, or the lack of blocks is reported.\<close>

definition save_stitched :: "byte ndarray list \<Rightarrow> action list \<times> unit outcome" where
  "save_stitched blocks =
     (if blocks \<noteq> []
      then (case vstack blocks of
              Inl e \<Rightarrow> ([], Raised e)
            | Inr final_image \<Rightarrow> ([Imwrite final_image, Print SavedStitchedImage], Returned ()))
      else ([Print NothingToSave], Returned ()))"

text \<open>\<open>capture_blocks\<close>; the flag is global and is handed in with the value it has when
  the function is called. Lines 69-78 come before the loop, lines 102-111 after it.\<close>

definition capture_blocks_setup :: "bool \<Rightarrow> session \<Rightarrow> action list \<times> bs_state" where
  "capture_blocks_setup flag env =
     (map (\<lambda>i. ImageRequestSingle (submit_ok env i)) [0..<5] @ [StartAcquisition],
      \<lparr>stop_acquisition = flag, previous_request = None, stitched_blocks = []\<rparr>)"

definition capture_blocks_finish :: "bs_state \<Rightarrow> action list \<times> unit outcome" where
  "capture_blocks_finish s =
     (let (saved, r) = save_stitched (stitched_blocks s)
      in ([StopAcquisition, DestroyAllWindows] @ saved, r))"

definition capture_blocks :: "bool \<Rightarrow> session \<Rightarrow> action list \<times> unit outcome" where
  "capture_blocks flag env =
     (let (before, s) = capture_blocks_setup flag env;
          (looped, r) = capture_blocks_loop s (passes env)
      in case r of
           Returned s' \<Rightarrow>
             (let (after, r') = capture_blocks_finish s' in (before @ looped @ after, r'))
         | Raised e \<Rightarrow> (before @ looped, Raised e)
         | StillRunning \<Rightarrow> (before @ looped, StillRunning))"

text \<open>\<open>main\<close> starts the input thread before it calls \<open>capture_blocks\<close>.\<close>

definition blockscan_main :: "session \<Rightarrow> action list \<times> unit outcome" where
  "blockscan_main env =
     (let (acts, r) = capture_blocks (wait_for_enter (early_enter env) False) env
      in (StartThread # (if early_enter env then [SetStop] else []) @ acts, r))"

section \<open>Reading a trace\<close>

text \<open>
  The requests that are locked after a trace: a successful wait hands one over, \<open>unlock\<close>
  gives one back.
\<close>

fun held_step :: "nat list \<Rightarrow> action \<Rightarrow> nat list" where
  "held_step h (ImageRequestWaitFor nr) = (if isRequestNrValid nr then h @ [nat nr] else h)"
| "held_step h (Unlock k) = remove1 k h"
| "held_step h a = h"

definition held_after :: "action list \<Rightarrow> nat list" where
  "held_after tr = foldl held_step [] tr"

text \<open>The request handed over by the most recent successful wait of a trace.\<close>

fun delivered_step :: "nat option \<Rightarrow> action \<Rightarrow> nat option" where
  "delivered_step d (ImageRequestWaitFor nr) = (if isRequestNrValid nr then Some (nat nr) else d)"
| "delivered_step d a = d"

definition last_delivered :: "action list \<Rightarrow> nat option" where
  "last_delivered tr = foldl delivered_step None tr"

text \<open>
  The requests that are queued in the device after a trace: a successful
  \<open>imageRequestSingle\<close> adds one, a successful wait takes one out, a reset empties the queue.
\<close>

fun outstanding_step :: "int \<Rightarrow> action \<Rightarrow> int" where
  "outstanding_step n ImageRequestReset = 0"
| "outstanding_step n (ImageRequestSingle ok) = (if ok then n + 1 else n)"
| "outstanding_step n (ImageRequestWaitFor nr) = (if isRequestNrValid nr then n - 1 else n)"
| "outstanding_step n a = n"

definition outstanding :: "action list \<Rightarrow> int" where
  "outstanding tr = foldl outstanding_step 0 tr"

section \<open>The samples of a frame\<close>

text \<open>The buffer of a request as 16-bit samples, in the shape height, width, channels.\<close>

definition samples_of :: "request \<Rightarrow> uint16 ndarray" where
  "samples_of p =
     \<lparr>shape = [imageHeight p, imageWidth p, imageChannelCount p],
      elems = uint16_le (from_address (imageSize p) (imageData p))\<rparr>"

text \<open>
  The rescaling as the specification words it: \<open>clamp(round(in * 255.0 / 65535.0), 0, 255)\<close>,
  in exact arithmetic and with \<open>round\<close> taking a half upwards.
\<close>

definition rescale_spec :: "nat \<Rightarrow> int" where
  "rescale_spec x = max 0 (min 255 (round (of_nat x * 255 / 65535 :: rat)))"

text \<open>
  The conversion as the specification words it: the 8-bit image with the shape of the frame
  in which every value is the rescaled sample of the same place.
\<close>

definition convert_spec :: "request \<Rightarrow> byte ndarray" where
  "convert_spec p =
     \<lparr>shape = shape (samples_of p),
      elems = map (\<lambda>x. word_of_int (rescale_spec (unat x))) (elems (samples_of p))\<rparr>"

section \<open>Malformed frames\<close>

text \<open>
  The bytes of one sample of a bit depth: the least number of whole bytes that hold so many
  bits. A frame is malformed when the size of its buffer is not that of
  \<open>width * height * channels\<close> such samples.
\<close>

definition bytesPerSample :: "nat \<Rightarrow> nat" where
  "bytesPerSample bit_depth = (bit_depth + 7) div 8"

definition malformed :: "request \<Rightarrow> bool" where
  "malformed p \<longleftrightarrow>
     imageSize p \<noteq> imageWidth p * imageHeight p * imageChannelCount p
                      * bytesPerSample (imageChannelBitDepth p)"

section \<open>Blocks and the two sinks\<close>

text \<open>The buffer of a request as 8-bit samples, in the shape height, width, channels.\<close>

definition raw_block :: "request \<Rightarrow> byte ndarray" where
  "raw_block p =
     \<lparr>shape = [imageHeight p, imageWidth p, imageChannelCount p],
      elems = from_address (imageSize p) (imageData p)\<rparr>"

text \<open>The height of a block, and what one of its rows looks like (width and channels).\<close>

definition block_height :: "'a ndarray \<Rightarrow> nat" where
  "block_height b = hd (atleast_2d (shape b))"

definition row_shape :: "'a ndarray \<Rightarrow> nat list" where
  "row_shape b = tl (atleast_2d (shape b))"

text \<open>
  The frame rate as the specification words it: the number of frames by the time between the
  first and the last arrival, floored at 1.
\<close>

definition claimed_fps :: "(byte ndarray \<times> rat) list \<Rightarrow> rat" where
  "claimed_fps reqs = max (of_nat (length reqs) / (snd (last reqs) - snd (hd reqs))) 1"

section \<open>The diagnostics of a session\<close>

text \<open>The lines that \<open>handle_unsupported_format\<close> prints, and those of them in a trace.\<close>

fun diagnostic_message :: "message \<Rightarrow> bool" where
  "diagnostic_message UnsupportedFormatDetected = True"
| "diagnostic_message (Info i) = True"
| "diagnostic_message OnlySupports16Bit3Channel = True"
| "diagnostic_message PleaseAdjustConfiguration = True"
| "diagnostic_message PixelFormatHint = True"
| "diagnostic_message CheckForHelp = True"
| "diagnostic_message SkippedUnsupportedFrame = True"
| "diagnostic_message m = False"

fun is_diagnostic :: "action \<Rightarrow> bool" where
  "is_diagnostic (Print m) = diagnostic_message m"
| "is_diagnostic a = False"

definition diagnostics :: "action list \<Rightarrow> action list" where
  "diagnostics tr = filter is_diagnostic tr"

text \<open>
  What a throttled validator prints for a sequence of rejections, the flag being \<open>flag\<close> at
  its start: the verbose diagnostic for the first rejection while the flag is unset, the
  skipped notice for every other one.
\<close>

fun throttled :: "bool \<Rightarrow> info list \<Rightarrow> action list" where
  "throttled flag [] = []"
| "throttled flag (i # is) =
     (if flag then Print SkippedUnsupportedFrame # throttled True is
      else verbose_diagnostic i @ throttled True is)"

text \<open>The frames that a session of \<open>capture_frames\<close> rejects, each with the text the
  script hands to \<open>handle_unsupported_format\<close>, up to the first exception.\<close>

fun frames_rejected :: "iteration list \<Rightarrow> info list" where
  "frames_rejected [] = []"
| "frames_rejected (it # its) =
     (if isRequestNrValid (wait_nr it) \<and> isOK (delivered it)
      then (case display_and_save_frame (delivered it) of
              Inl e \<Rightarrow> []
            | Inr (acts, frame, warning_info) \<Rightarrow>
                (case warning_info of
                   None \<Rightarrow> frames_rejected its
                 | Some i \<Rightarrow> i # frames_rejected its))
      else frames_rejected its)"

text \<open>The text with which \<open>convert_frame\<close> rejects a frame (lines 65 and 73), and the
  frames that a session of \<open>capture_and_buffer\<close> rejects before its loop ends: those for
  which \<open>convert_frame\<close> calls \<open>handle_unsupported_format\<close>, which always prints.\<close>

definition convert_rejection :: "request \<Rightarrow> info" where
  "convert_rejection p =
     (if imageChannelCount p \<noteq> 3 \<or> imageChannelBitDepth p \<noteq> 16
      then FormatInfo (imageChannelCount p) (imageChannelBitDepth p)
      else InvalidArraySize)"

fun recording_rejected :: "bool \<Rightarrow> iteration list \<Rightarrow> info list" where
  "recording_rejected stop [] = []"
| "recording_rejected stop (it # its) =
     (if stop then []
      else if isRequestNrValid (wait_nr it) \<and> isOK (delivered it)
      then (case convert_frame (delivered it) False of
              Inl e \<Rightarrow> []
            | Inr (acts, frame, flag') \<Rightarrow>
                (if acts = [] then recording_rejected (enter it \<noteq> NoEnter) its
                 else convert_rejection (delivered it)
                        # recording_rejected (enter it \<noteq> NoEnter) its))
      else recording_rejected (enter it \<noteq> NoEnter) its)"

section \<open>Concrete frames and sessions\<close>

text \<open>An 8-bit frame with one channel, two by two pixels.\<close>

definition mono8_frame :: request where
  "mono8_frame =
     \<lparr>isOK = True, imageSize = 4, imageHeight = 2, imageWidth = 2, imageChannelCount = 1,
      imageChannelBitDepth = 8, imagePixelFormat = 1, imageData = (\<lambda>i. of_nat i)\<rparr>"

text \<open>A pass in which the wait returns request \<open>nr\<close> with the frame \<open>p\<close>.\<close>

definition pass_of :: "int \<Rightarrow> request \<Rightarrow> iteration" where
  "pass_of nr p = \<lparr>wait_nr = nr, delivered = p, resubmit_ok = True, clock = 0, enter = NoEnter\<rparr>"

text \<open>A session in which the device takes every request and the user does not press ENTER
  during the given passes.\<close>

definition session_of :: "iteration list \<Rightarrow> session" where
  "session_of its =
     \<lparr>submit_ok = (\<lambda>i. True), early_enter = False, start_time = 0, passes = its, end_time = 1\<rparr>"

text \<open>A 16-bit frame with three channels, one row of two pixels: the samples are
  0, 65535, 128, 129, 257 and 32768.\<close>

definition rgb16_frame :: request where
  "rgb16_frame =
     \<lparr>isOK = True, imageSize = 12, imageHeight = 1, imageWidth = 2, imageChannelCount = 3,
      imageChannelBitDepth = 16, imagePixelFormat = 1,
      imageData = (\<lambda>i. [0, 0, 255, 255, 128, 0, 129, 0, 1, 1, 0, 128] ! i)\<rparr>"

text \<open>Malformed frames: an 8-bit frame of two by two pixels with three bytes, and 16-bit
  frames of one pixel with three channels that have five and four bytes instead of six.\<close>

definition truncated_mono8 :: request where
  "truncated_mono8 = mono8_frame\<lparr>imageSize := 3\<rparr>"

definition odd_rgb16 :: request where
  "odd_rgb16 =
     \<lparr>isOK = True, imageSize = 5, imageHeight = 1, imageWidth = 1, imageChannelCount = 3,
      imageChannelBitDepth = 16, imagePixelFormat = 1, imageData = (\<lambda>i. 0)\<rparr>"

definition short_rgb16 :: request where
  "short_rgb16 = odd_rgb16\<lparr>imageSize := 4\<rparr>"

text \<open>A 32-bit frame of one pixel with one channel that has two bytes instead of four.\<close>

definition half_mono32 :: request where
  "half_mono32 =
     \<lparr>isOK = True, imageSize = 2, imageHeight = 1, imageWidth = 1, imageChannelCount = 1,
      imageChannelBitDepth = 32, imagePixelFormat = 1, imageData = (\<lambda>i. [0, 128] ! i)\<rparr>"

text \<open>A converted frame of one pixel, and three blocks of two rows and one column.\<close>

definition one_pixel :: "byte ndarray" where
  "one_pixel = \<lparr>shape = [1, 1, 3], elems = [10, 20, 30]\<rparr>"

definition three_blocks :: "byte ndarray list" where
  "three_blocks =
     [\<lparr>shape = [2, 1, 1], elems = [1, 2]\<rparr>, \<lparr>shape = [2, 1, 1], elems = [3, 4]\<rparr>,
      \<lparr>shape = [2, 1, 1], elems = [5, 6]\<rparr>]"

definition empty_blocks :: bs_state where
  "empty_blocks = \<lparr>stop_acquisition = False, previous_request = None, stitched_blocks = []\<rparr>"

section \<open>Following a trace\<close>

text \<open>
  \<open>always step P t tr\<close>: when the trace \<open>tr\<close> is followed from the tracked value \<open>t\<close>,
  every action meets \<open>P\<close> at the value tracked before it.
\<close>

fun always :: "('t \<Rightarrow> action \<Rightarrow> 't) \<Rightarrow> ('t \<Rightarrow> action \<Rightarrow> bool) \<Rightarrow> 't \<Rightarrow> action list \<Rightarrow> bool" where
  "always step P t [] = True"
| "always step P t (a # as) = (P t a \<and> always step P (step t a) as)"

text \<open>Actions that neither touch a request nor the stop flag.\<close>

fun is_output :: "action \<Rightarrow> bool" where
  "is_output (Print m) = True"
| "is_output (Imshow i) = True"
| "is_output (Imwrite i) = True"
| "is_output WaitKey = True"
| "is_output DestroyAllWindows = True"
| "is_output (VideoWrite f s fs) = True"
| "is_output StartAcquisition = True"
| "is_output StopAcquisition = True"
| "is_output StartThread = True"
| "is_output a = False"

text \<open>The completions that no \<open>imageRequestSingle\<close> has followed yet.\<close>

fun owed_step :: "int \<Rightarrow> action \<Rightarrow> int" where
  "owed_step n (ImageRequestWaitFor nr) = (if isRequestNrValid nr then n + 1 else n)"
| "owed_step n (ImageRequestSingle ok) = n - 1"
| "owed_step n a = n"

definition owed :: "action list \<Rightarrow> int" where
  "owed tr = foldl owed_step 0 tr"

text \<open>The calls of \<open>imageRequestSingle\<close>.\<close>

fun is_submission :: "action \<Rightarrow> bool" where
  "is_submission (ImageRequestSingle ok) = True"
| "is_submission a = False"

text \<open>A recording session whose device takes three requests and refuses the rest, and
  the state in which the loop of \<open>capture_and_buffer\<close> starts.\<close>

definition flaky_device :: session where
  "flaky_device =
     \<lparr>submit_ok = (\<lambda>i. i < 3), early_enter = False, start_time = 0,
      passes = [pass_of 0 mono8_frame], end_time = 1\<rparr>"

definition recording_start :: rv_state where
  "recording_start = \<lparr>stop_recording = False, requests = [], warning_flag = False\<rparr>"

section \<open>Locked requests along a trace\<close>

text \<open>The locked requests and the request of the last successful wait, followed together.\<close>

fun hold_step :: "nat list \<times> nat option \<Rightarrow> action \<Rightarrow> nat list \<times> nat option" where
  "hold_step (h, d) a = (held_step h a, delivered_step d a)"

text \<open>
  Release deferred by one pass: after every action at most two requests are locked and the
  one delivered last is among them, and a wait begins with at most one locked.
\<close>

definition deferred_release :: "nat list \<times> nat option \<Rightarrow> action \<Rightarrow> bool" where
  "deferred_release t a \<longleftrightarrow>
     length (fst (hold_step t a)) \<le> 2
     \<and> (\<forall>k. snd (hold_step t a) = Some k \<longrightarrow> k \<in> set (fst (hold_step t a)))
     \<and> (\<forall>nr. a = ImageRequestWaitFor nr \<longrightarrow> length (fst t) \<le> 1)"

text \<open>Release within the pass: after every action at most one request is locked, and a
  wait begins with none.\<close>

definition prompt_release :: "nat list \<Rightarrow> action \<Rightarrow> bool" where
  "prompt_release h a \<longleftrightarrow>
     length (held_step h a) \<le> 1 \<and> (\<forall>nr. a = ImageRequestWaitFor nr \<longrightarrow> h = [])"

text \<open>Actions that neither hand a request over nor give one back.\<close>

fun keeps_requests :: "action \<Rightarrow> bool" where
  "keeps_requests (ImageRequestWaitFor nr) = False"
| "keeps_requests (Unlock k) = False"
| "keeps_requests a = True"

text \<open>At most two requests are locked and the one delivered last is among them.\<close>

definition settled :: "nat list \<times> nat option \<Rightarrow> bool" where
  "settled t \<longleftrightarrow> length (fst t) \<le> 2 \<and> (\<forall>k. snd t = Some k \<longrightarrow> k \<in> set (fst t))"

text \<open>The tracked value between two passes of a loop that defers the release.\<close>

definition between_passes :: "nat option \<Rightarrow> nat list \<times> nat option" where
  "between_passes prev = ((case prev of None \<Rightarrow> [] | Some k \<Rightarrow> [k]), prev)"

section \<open>The stop flag along a trace\<close>

text \<open>
  The stop flag along a trace: whether the input thread has assigned it, and whether the
  guard of the loop has read it as True.
\<close>

fun stop_step :: "bool \<times> bool \<Rightarrow> action \<Rightarrow> bool \<times> bool" where
  "stop_step (f, e) SetStop = (True, e)"
| "stop_step (f, e) (CheckStop b) = (f, e \<or> b)"
| "stop_step (f, e) a = (f, e)"

text \<open>
  What a monotone flag asks of each action: a guard reads the flag as it stands and
  is not evaluated again once it has read True, the flag is assigned only while it is False,
  and no wait begins once the guard has read True.
\<close>

fun flag_respected :: "bool \<times> bool \<Rightarrow> action \<Rightarrow> bool" where
  "flag_respected (f, e) SetStop = (\<not> f)"
| "flag_respected (f, e) (CheckStop b) = (b = f \<and> \<not> e)"
| "flag_respected (f, e) (ImageRequestWaitFor nr) = (\<not> e)"
| "flag_respected (f, e) a = True"

text \<open>Actions that are neither a wait nor an event of the stop flag.\<close>

fun beside_flag :: "action \<Rightarrow> bool" where
  "beside_flag SetStop = False"
| "beside_flag (CheckStop b) = False"
| "beside_flag (ImageRequestWaitFor nr) = False"
| "beside_flag a = True"

text \<open>What the two loop bodies have in common, as far as the flag goes.\<close>

definition flag_shaped ::
  "('s \<Rightarrow> bool) \<Rightarrow> ('s \<Rightarrow> iteration \<Rightarrow> action list \<times> (error + 's)) \<Rightarrow> bool" where
  "flag_shaped stop body \<longleftrightarrow>
     (\<forall>s it. \<exists>rest. fst (body s it) = wait_actions it @ rest \<and> list_all beside_flag rest
        \<and> (\<forall>s'. snd (body s it) = Inr s' \<longrightarrow> stop s' = (enter it \<noteq> NoEnter \<or> stop s)))"

text \<open>A block-scan session in which ENTER arrives in the first pass, before its wait.\<close>

definition enter_in_first_pass :: session where
  "enter_in_first_pass =
     \<lparr>submit_ok = (\<lambda>i. True), early_enter = False, start_time = 0,
      passes = [(pass_of 0 mono8_frame)\<lparr>enter := EnterBeforeWait\<rparr>, pass_of 1 mono8_frame],
      end_time = 1\<rparr>"

text \<open>The waits that a trace begins after the assignment of the input thread.\<close>

fun late_wait_step :: "bool \<times> nat \<Rightarrow> action \<Rightarrow> bool \<times> nat" where
  "late_wait_step (f, w) SetStop = (True, w)"
| "late_wait_step (f, w) (ImageRequestWaitFor nr) = (f, if f then Suc w else w)"
| "late_wait_step (f, w) a = (f, w)"

definition waits_after_stop :: "action list \<Rightarrow> nat" where
  "waits_after_stop tr = snd (foldl late_wait_step (False, 0) tr)"

text \<open>The actions by which a sink finalizes: it writes its file or reports that there is
  nothing to write.\<close>

fun is_finalize :: "action \<Rightarrow> bool" where
  "is_finalize (VideoWrite rate dims frames) = True"
| "is_finalize (Imwrite img) = True"
| "is_finalize (Print NoFramesCaptured) = True"
| "is_finalize (Print NothingToSave) = True"
| "is_finalize a = False"

definition finalizations :: "action list \<Rightarrow> nat" where
  "finalizations tr = length (filter is_finalize tr)"

section \<open>Gathered frames and blocks\<close>

text \<open>
  The frames that a session of \<open>capture_and_buffer\<close> has gathered when its loop ends: those
  that \<open>convert_frame\<close> converts, each with the time of its arrival, in the passes that the
  loop runs before the flag is set or an exception ends it.
\<close>

fun recorded :: "bool \<Rightarrow> iteration list \<Rightarrow> (byte ndarray \<times> rat) list" where
  "recorded stop [] = []"
| "recorded stop (it # its) =
     (if stop then []
      else if isRequestNrValid (wait_nr it) \<and> isOK (delivered it)
      then (case convert_frame (delivered it) False of
              Inl e \<Rightarrow> []
            | Inr (acts, frame, flag') \<Rightarrow>
                (case frame of
                   None \<Rightarrow> recorded (enter it \<noteq> NoEnter) its
                 | Some f \<Rightarrow> (f, clock it) # recorded (enter it \<noteq> NoEnter) its))
      else recorded (enter it \<noteq> NoEnter) its)"

text \<open>The blocks that a session of \<open>capture_blocks\<close> has gathered when its loop ends.\<close>

fun stitched :: "bool \<Rightarrow> iteration list \<Rightarrow> byte ndarray list" where
  "stitched stop [] = []"
| "stitched stop (it # its) =
     (if stop then []
      else if isRequestNrValid (wait_nr it) \<and> isOK (delivered it)
      then (case extract_block (delivered it) of
              Inl e \<Rightarrow> []
            | Inr (acts, block) \<Rightarrow>
                (case block of
                   None \<Rightarrow> stitched (enter it \<noteq> NoEnter) its
                 | Some b \<Rightarrow> b # stitched (enter it \<noteq> NoEnter) its))
      else stitched (enter it \<noteq> NoEnter) its)"

text \<open>A recording in which one frame arrives after one second and ENTER after the wait of
  the same pass, the recording ending after two seconds.\<close>

definition one_frame_recording :: session where
  "one_frame_recording =
     \<lparr>submit_ok = (\<lambda>i. True), early_enter = False, start_time = 0,
      passes = [(pass_of 0 rgb16_frame)\<lparr>clock := 1, enter := EnterAfterWait\<rparr>], end_time = 2\<rparr>"

text \<open>A recording in which ENTER arrives before the wait of a pass that delivers a 16-bit
  frame with an odd number of bytes, and a block scan in which ENTER arrives before the wait
  of the second pass, the two blocks having different widths.\<close>

definition odd_recording :: session where
  "odd_recording = session_of [(pass_of 0 odd_rgb16)\<lparr>enter := EnterBeforeWait\<rparr>]"

definition narrow_mono8 :: request where
  "narrow_mono8 =
     \<lparr>isOK = True, imageSize = 1, imageHeight = 1, imageWidth = 1, imageChannelCount = 1,
      imageChannelBitDepth = 8, imagePixelFormat = 1, imageData = (\<lambda>i. 7)\<rparr>"

definition uneven_blocks :: session where
  "uneven_blocks =
     session_of [pass_of 0 mono8_frame, (pass_of 1 narrow_mono8)\<lparr>enter := EnterBeforeWait\<rparr>]"

section \<open>Facts about buffers and the three frame functions\<close>

lemma length_from_address [simp]: "length (from_address n mem) = n"
  by (simp add: from_address_def)

lemma length_uint16_le [simp]: "length (uint16_le bs) = length bs div 2"
  by (induction bs rule: uint16_le.induct) simp_all

lemma frombuffer_uint16_cases:
  "frombuffer_uint16 cbuf =
     (if odd (length cbuf) then Inl ValueError
      else Inr \<lparr>shape = [length cbuf div 2], elems = uint16_le cbuf\<rparr>)"
  by (simp add: frombuffer_uint16_def odd_iff_mod_2_eq_one)

lemma reshape_ok:
  "prod_list shp = length (elems a) \<Longrightarrow> reshape a shp = Inr \<lparr>shape = shp, elems = elems a\<rparr>"
  by (simp add: reshape_def arr_size_def)

text \<open>The 16-bit view of a request's buffer, in the shape the area-scan scripts give it.\<close>

lemma display_and_save_frame_cases:
  "display_and_save_frame p =
     (if odd (imageSize p) then Inl ValueError
      else if imageSize p div 2 \<noteq> imageHeight p * imageWidth p * imageChannelCount p
              \<or> imageChannelCount p \<noteq> 3 \<or> imageChannelBitDepth p \<noteq> 16
      then Inr ([], None,
                Some (ImageInfo (imageSize p) (imageHeight p) (imageWidth p) (imageChannelCount p)
                        (imageChannelBitDepth p) (imagePixelFormat p) (imageSize p div 2)))
      else (case convertScaleAbs (samples_of p) (255 / 65535) 0 of
              None \<Rightarrow> Inl CvError
            | Some img_cv \<Rightarrow> Inr ([Imshow img_cv, Imwrite img_cv, WaitKey], Some img_cv, None)))"
  by (simp add: display_and_save_frame_def frombuffer_uint16_cases Let_def arr_size_def
        reshape_def samples_of_def convertScaleAbs_def)

lemma convert_frame_cases:
  "convert_frame p flag =
     (if imageChannelCount p \<noteq> 3 \<or> imageChannelBitDepth p \<noteq> 16
      then Inr (fst (handle_unsupported_format
                       (FormatInfo (imageChannelCount p) (imageChannelBitDepth p)) flag),
                None,
                snd (handle_unsupported_format
                       (FormatInfo (imageChannelCount p) (imageChannelBitDepth p)) flag))
      else if odd (imageSize p) then Inl ValueError
      else if imageSize p div 2 \<noteq> imageHeight p * imageWidth p * imageChannelCount p
      then Inr (fst (handle_unsupported_format InvalidArraySize flag), None,
                snd (handle_unsupported_format InvalidArraySize flag))
      else Inr ([], convertScaleAbs (samples_of p) (255 / 65535) 0, flag))"
  by (simp add: convert_frame_def frombuffer_uint16_cases Let_def arr_size_def
        reshape_def samples_of_def case_prod_beta convertScaleAbs_def)

section \<open>The loops, pass by pass\<close>

lemma while_not_stopped_fst:
  "fst (while_not_stopped stop body s (it # its)) =
     (if stop s then [CheckStop True]
      else CheckStop False # fst (body s it)
           @ (case snd (body s it) of
                Inl e \<Rightarrow> []
              | Inr s' \<Rightarrow> fst (while_not_stopped stop body s' its)))"
  by (simp add: case_prod_beta split: prod.splits sum.splits)

lemma while_not_stopped_snd:
  "snd (while_not_stopped stop body s (it # its)) =
     (if stop s then Returned s
      else case snd (body s it) of
             Inl e \<Rightarrow> Raised e
           | Inr s' \<Rightarrow> snd (while_not_stopped stop body s' its))"
  by (simp add: case_prod_beta split: prod.splits sum.splits)

lemma capture_and_buffer_loop_Nil [simp]:
  "capture_and_buffer_loop s [] =
     (if stop_recording s then ([CheckStop True], Returned s) else ([CheckStop False], StillRunning))"
  by (simp add: capture_and_buffer_loop_def)

lemma capture_and_buffer_loop_Cons [simp]:
  "capture_and_buffer_loop s (it # its) =
     (if stop_recording s then ([CheckStop True], Returned s)
      else case capture_and_buffer_body s it of
             (acts, Inl e) \<Rightarrow> (CheckStop False # acts, Raised e)
           | (acts, Inr s') \<Rightarrow>
               (let (more, r) = capture_and_buffer_loop s' its
                in (CheckStop False # acts @ more, r)))"
  unfolding capture_and_buffer_loop_def by simp

lemma capture_blocks_loop_Nil [simp]:
  "capture_blocks_loop s [] =
     (if stop_acquisition s then ([CheckStop True], Returned s)
      else ([CheckStop False], StillRunning))"
  by (simp add: capture_blocks_loop_def)

lemma capture_blocks_loop_Cons [simp]:
  "capture_blocks_loop s (it # its) =
     (if stop_acquisition s then ([CheckStop True], Returned s)
      else case capture_blocks_body s it of
             (acts, Inl e) \<Rightarrow> (CheckStop False # acts, Raised e)
           | (acts, Inr s') \<Rightarrow>
               (let (more, r) = capture_blocks_loop s' its
                in (CheckStop False # acts @ more, r)))"
  unfolding capture_blocks_loop_def by simp

section \<open>The trace of a run, in its three parts\<close>

lemma capture_frames_setup_simps [simp]:
  "fst (capture_frames_setup capacity) = queue_all capacity @ [StartAcquisition]"
  "snd (capture_frames_setup capacity) = (None, False)"
  by (simp_all add: capture_frames_setup_def)

lemma capture_frames_trace:
  "fst (capture_frames capacity its) =
     fst (capture_frames_setup capacity)
     @ fst (capture_frames_loop 0 (None, False) its)
     @ (case snd (capture_frames_loop 0 (None, False) its) of
          Returned s \<Rightarrow> [StopAcquisition, DestroyAllWindows] | Raised e \<Rightarrow> [] | StillRunning \<Rightarrow> [])"
  by (simp add: capture_frames_def case_prod_beta split: outcome.splits)

lemma capture_and_buffer_setup_simps [simp]:
  "fst (capture_and_buffer_setup env) =
     [ImageRequestReset] @ fst (prime (map (submit_ok env) [0..<MAX_REQUESTS]) 0)
     @ [Print (QueuedInitialRequests (snd (prime (map (submit_ok env) [0..<MAX_REQUESTS]) 0))),
        StartAcquisition, Print CapturingRawRequests, StartThread]
     @ (if early_enter env then [SetStop] else [])"
  "stop_recording (snd (capture_and_buffer_setup env)) = early_enter env"
  "requests (snd (capture_and_buffer_setup env)) = []"
  "warning_flag (snd (capture_and_buffer_setup env)) = False"
  by (simp_all add: capture_and_buffer_setup_def case_prod_beta wait_for_enter_def)

lemma capture_and_buffer_trace:
  "fst (capture_and_buffer env) =
     fst (capture_and_buffer_setup env)
     @ fst (capture_and_buffer_loop (snd (capture_and_buffer_setup env)) (passes env))
     @ (case snd (capture_and_buffer_loop (snd (capture_and_buffer_setup env)) (passes env)) of
          Returned s \<Rightarrow> fst (capture_and_buffer_finish env s) | Raised e \<Rightarrow> [] | StillRunning \<Rightarrow> [])"
  by (simp add: capture_and_buffer_def case_prod_beta split: outcome.splits)

lemma capture_and_buffer_finish_fst [simp]:
  "fst (capture_and_buffer_finish env s) =
     [StopAcquisition, Print CaptureComplete]
     @ fst (save_video (requests s) (start_time env) (end_time env))"
  by (simp add: capture_and_buffer_finish_def case_prod_beta)

lemma capture_blocks_setup_simps [simp]:
  "fst (capture_blocks_setup flag env) =
     map (\<lambda>i. ImageRequestSingle (submit_ok env i)) [0..<5] @ [StartAcquisition]"
  "stop_acquisition (snd (capture_blocks_setup flag env)) = flag"
  "previous_request (snd (capture_blocks_setup flag env)) = None"
  "stitched_blocks (snd (capture_blocks_setup flag env)) = []"
  by (simp_all add: capture_blocks_setup_def)

lemma capture_blocks_trace:
  "fst (capture_blocks flag env) =
     fst (capture_blocks_setup flag env)
     @ fst (capture_blocks_loop (snd (capture_blocks_setup flag env)) (passes env))
     @ (case snd (capture_blocks_loop (snd (capture_blocks_setup flag env)) (passes env)) of
          Returned s \<Rightarrow> fst (capture_blocks_finish s) | Raised e \<Rightarrow> [] | StillRunning \<Rightarrow> [])"
  by (simp add: capture_blocks_def case_prod_beta split: outcome.splits)

lemma capture_blocks_finish_fst [simp]:
  "fst (capture_blocks_finish s) =
     [StopAcquisition, DestroyAllWindows] @ fst (save_stitched (stitched_blocks s))"
  by (simp add: capture_blocks_finish_def case_prod_beta)


lemma capture_frames_outcome:
  "snd (capture_frames capacity its) = snd (capture_frames_loop 0 (None, False) its)"
  by (simp add: capture_frames_def case_prod_beta split: outcome.splits)

lemma capture_and_buffer_outcome:
  "snd (capture_and_buffer env) =
     (case snd (capture_and_buffer_loop (snd (capture_and_buffer_setup env)) (passes env)) of
        Returned s \<Rightarrow> snd (capture_and_buffer_finish env s)
      | Raised e \<Rightarrow> Raised e
      | StillRunning \<Rightarrow> StillRunning)"
  by (simp add: capture_and_buffer_def case_prod_beta split: outcome.splits)

lemma capture_and_buffer_finish_snd [simp]:
  "snd (capture_and_buffer_finish env s)
     = snd (save_video (requests s) (start_time env) (end_time env))"
  by (simp add: capture_and_buffer_finish_def case_prod_beta)

lemma capture_blocks_outcome:
  "snd (capture_blocks flag env) =
     (case snd (capture_blocks_loop (snd (capture_blocks_setup flag env)) (passes env)) of
        Returned s \<Rightarrow> snd (capture_blocks_finish s)
      | Raised e \<Rightarrow> Raised e
      | StillRunning \<Rightarrow> StillRunning)"
  by (simp add: capture_blocks_def case_prod_beta split: outcome.splits)

lemma capture_blocks_finish_snd [simp]:
  "snd (capture_blocks_finish s) = snd (save_stitched (stitched_blocks s))"
  by (simp add: capture_blocks_finish_def case_prod_beta)

lemma capture_and_buffer_start:
  "snd (capture_and_buffer_setup env)
     = \<lparr>stop_recording = early_enter env, requests = [], warning_flag = False\<rparr>"
  by (simp add: capture_and_buffer_setup_def case_prod_beta wait_for_enter_def)

lemma capture_blocks_start:
  "snd (capture_blocks_setup flag env)
     = \<lparr>stop_acquisition = flag, previous_request = None, stitched_blocks = []\<rparr>"
  by (simp add: capture_blocks_setup_def)

section \<open>Diagnostics are throttled\<close>

lemma diagnostics_append [simp]: "diagnostics (a @ b) = diagnostics a @ diagnostics b"
  by (simp add: diagnostics_def)

lemma diagnostics_Nil [simp]: "diagnostics [] = []"
  by (simp add: diagnostics_def)

lemma diagnostics_Cons [simp]: "diagnostics (a # b) = (if is_diagnostic a then a # diagnostics b else diagnostics b)"
  by (simp add: diagnostics_def)

lemma diagnostics_verbose [simp]: "diagnostics (verbose_diagnostic i) = verbose_diagnostic i"
  by (simp add: diagnostics_def verbose_diagnostic_def)

lemma verbose_diagnostic_not_Nil [simp]: "verbose_diagnostic i \<noteq> []"
  by (simp add: verbose_diagnostic_def)

lemma diagnostics_wait [simp]: "diagnostics (wait_actions it) = []"
  by (simp add: diagnostics_def wait_actions_def)

lemma diagnostics_release [simp]: "diagnostics (release_and_requeue p it) = []"
  by (simp add: diagnostics_def release_and_requeue_def split: option.splits)

lemma diagnostics_requeue [simp]: "diagnostics (requeue it) = []"
  by (simp add: diagnostics_def requeue_def)

lemma diagnostics_queue_all [simp]: "diagnostics (queue_all n) = []"
  by (induction n) (simp_all add: diagnostics_def)

lemma diagnostics_prime [simp]: "diagnostics (fst (prime rs q)) = []"
  by (induction rs arbitrary: q) (simp_all add: diagnostics_Cons case_prod_beta)

lemma display_diag:
  "display_and_save_frame p = Inr (acts, frame, w) \<Longrightarrow> diagnostics acts = []"
  by (auto simp: display_and_save_frame_cases Let_def diagnostics_Cons
        split: if_splits option.splits)

lemma handle_diag:
  "diagnostics (fst (handle_unsupported_format i flag)) @ throttled (snd (handle_unsupported_format i flag)) is
    = throttled flag (i # is)"
  by (simp add: handle_unsupported_format_def diagnostics_Cons)

lemma handle_flag: "snd (handle_unsupported_format i flag) = True"
  by (simp add: handle_unsupported_format_def)

lemma frames_loop_diag:
  "diagnostics (fst (capture_frames_loop i (prev, flag) its)) = throttled flag (frames_rejected its)"
proof (induction its arbitrary: i prev flag)
  case Nil
  then show ?case by simp
next
  case (Cons it its)
  show ?case
  proof (cases "isRequestNrValid (wait_nr it) \<and> isOK (delivered it)")
    case False
    then show ?thesis
      using Cons.IH by (auto simp: Let_def diagnostics_Cons case_prod_beta)
  next
    case True
    show ?thesis
    proof (cases "display_and_save_frame (delivered it)")
      case (Inl e)
      with True show ?thesis by (simp add: Let_def diagnostics_Cons)
    next
      case (Inr x)
      obtain acts frame w where x: "x = (acts, frame, w)" by (cases x) auto
      have d: "diagnostics acts = []" using Inr x display_diag by blast
      show ?thesis
      proof (cases w)
        case None
        with True Inr x d Cons.IH show ?thesis
          by (auto simp: Let_def diagnostics_Cons case_prod_beta)
      next
        case (Some info_text)
        obtain warned flag' where h: "handle_unsupported_format info_text flag = (warned, flag')"
          by (cases "handle_unsupported_format info_text flag") auto
        have "diagnostics warned @ throttled flag' (frames_rejected its)
                = throttled flag (info_text # frames_rejected its)"
          using handle_diag [of info_text flag "frames_rejected its"] h handle_flag [of info_text flag]
          by simp
        with True Inr x d Some h Cons.IH show ?thesis
          by (auto simp: Let_def diagnostics_Cons case_prod_beta)
      qed
    qed
  qed
qed


lemma convert_frame_flag:
  "convert_frame p flag =
     (case convert_frame p False of
        Inl e \<Rightarrow> Inl e
      | Inr (acts, frame, flag') \<Rightarrow>
          (if acts = [] then Inr ([], frame, flag)
           else Inr (fst (handle_unsupported_format (convert_rejection p) flag), None,
                     snd (handle_unsupported_format (convert_rejection p) flag))))"
  by (simp add: convert_frame_cases convert_rejection_def handle_unsupported_format_def
        verbose_diagnostic_def)

lemma recording_loop_diag:
  "diagnostics (fst (capture_and_buffer_loop s its))
     = throttled (warning_flag s) (recording_rejected (stop_recording s) its)"
proof (induction its arbitrary: s)
  case Nil
  then show ?case by (simp add: diagnostics_Cons)
next
  case (Cons it its)
  show ?case
  proof (cases "stop_recording s")
    case True
    then show ?thesis by (simp add: diagnostics_Cons)
  next
    case ns: False
    show ?thesis
    proof (cases "isRequestNrValid (wait_nr it) \<and> isOK (delivered it)")
      case False
      with ns show ?thesis
        using Cons.IH
        by (auto simp: capture_and_buffer_body_def Let_def diagnostics_Cons case_prod_beta
              wait_for_enter_def)
    next
      case True
      show ?thesis
      proof (cases "convert_frame (delivered it) False")
        case (Inl e)
        then have "convert_frame (delivered it) (warning_flag s) = Inl e"
          by (subst convert_frame_flag) simp
        with ns True Inl show ?thesis
          by (simp add: capture_and_buffer_body_def Let_def diagnostics_Cons)
      next
        case (Inr x)
        obtain acts frame f' where x: "x = (acts, frame, f')" by (cases x) auto
        show ?thesis
        proof (cases "acts = []")
          case False
          let ?h = "handle_unsupported_format (convert_rejection (delivered it)) (warning_flag s)"
          have c: "convert_frame (delivered it) (warning_flag s) = Inr (fst ?h, None, snd ?h)"
            using Inr x False by (subst convert_frame_flag) simp
          have "diagnostics (fst ?h) @ throttled (snd ?h) (recording_rejected (enter it \<noteq> NoEnter) its)
                  = throttled (warning_flag s)
                      (convert_rejection (delivered it) # recording_rejected (enter it \<noteq> NoEnter) its)"
            by (rule handle_diag)
          with ns True Inr x False c show ?thesis
            using Cons.IH
            by (simp add: capture_and_buffer_body_def Let_def diagnostics_Cons case_prod_beta
                  wait_for_enter_def handle_unsupported_format_def)
        next
          case e: True
          have c: "convert_frame (delivered it) (warning_flag s) = Inr ([], frame, warning_flag s)"
            using Inr x e by (subst convert_frame_flag) simp
          with ns True Inr x e show ?thesis
            using Cons.IH
            by (simp add: capture_and_buffer_body_def Let_def diagnostics_Cons case_prod_beta
                  wait_for_enter_def split: option.splits)
        qed
      qed
    qed
  qed
qed

lemma diagnostics_save_video [simp]: "diagnostics (fst (save_video reqs a b)) = []"
  by (simp add: save_video_def Let_def diagnostics_Cons)

lemma throttled_shape:
  "throttled False (i # is) = verbose_diagnostic i @ replicate (length is) (Print SkippedUnsupportedFrame)"
  "throttled True is = replicate (length is) (Print SkippedUnsupportedFrame)"
  by (induction "is") simp_all

lemma diagnostics_save_stitched [simp]: "diagnostics (fst (save_stitched blocks)) = []"
  by (simp add: save_stitched_def diagnostics_Cons split: sum.splits)



section \<open>The rescaling of 16-bit samples\<close>

lemma cvRound_unique:
  assumes "of_int k - 1 / 2 < v" "v < of_int k + 1 / 2"
  shows "cvRound v = k"
proof -
  have "of_int (k - 1) \<le> v" using assms(1) by simp
  then have lo: "k - 1 \<le> \<lfloor>v\<rfloor>" by (simp only: le_floor_iff)
  have "v < of_int (k + 1)" using assms(2) by simp
  then have hi: "\<lfloor>v\<rfloor> < k + 1" by (simp only: floor_less_iff)
  from lo hi have "\<lfloor>v\<rfloor> = k \<or> \<lfloor>v\<rfloor> = k - 1" by linarith
  then show ?thesis
  proof
    assume "\<lfloor>v\<rfloor> = k"
    with assms show ?thesis by (simp add: cvRound_def Let_def)
  next
    assume f: "\<lfloor>v\<rfloor> = k - 1"
    with assms have "1 / 2 < v - of_int (k - 1)" by simp
    with f show ?thesis by (simp add: cvRound_def Let_def)
  qed
qed

lemma near_257:
  fixes n :: nat and y :: rat
  assumes "\<bar>y - of_nat n / 257\<bar> < 1 / 514"
  shows "of_int ((int n + 128) div 257) - 1 / 2 < \<bar>y\<bar>"
    and "\<bar>y\<bar> < of_int ((int n + 128) div 257) + 1 / 2"
proof -
  define k where "k = (int n + 128) div 257"
  have lo: "257 * k \<le> int n + 128" and hi: "int n + 128 < 257 * k + 257"
    unfolding k_def by presburger+
  have "(of_int (257 * k) :: rat) \<le> of_int (int n + 128)"
    using lo by (simp only: of_int_le_iff)
  then have lo': "(257 :: rat) * of_int k \<le> of_nat n + 128" by simp
  have "(of_int (int n + 129) :: rat) \<le> of_int (257 * k + 257)"
    using hi by (simp only: of_int_le_iff)
  then have hi': "(of_nat n :: rat) + 129 \<le> 257 * of_int k + 257" by simp
  have "\<bar>\<bar>y\<bar> - \<bar>of_nat n / 257 :: rat\<bar>\<bar> \<le> \<bar>y - of_nat n / 257\<bar>"
    by (rule abs_triangle_ineq3)
  then have a: "\<bar>\<bar>y\<bar> - of_nat n / 257\<bar> < 1 / 514"
    using assms by simp
  have b: "of_int k - 1 / 2 \<le> (of_nat n :: rat) / 257 - 1 / 514"
    using lo' by (simp add: field_simps)
  have c: "(of_nat n :: rat) / 257 + 1 / 514 \<le> of_int k + 1 / 2"
    using hi' by (simp add: field_simps)
  show "of_int ((int n + 128) div 257) - 1 / 2 < \<bar>y\<bar>"
    using a b unfolding k_def by linarith
  show "\<bar>y\<bar> < of_int ((int n + 128) div 257) + 1 / 2"
    using a c unfolding k_def by linarith
qed

lemma cvRound_near:
  fixes n :: nat and y :: rat
  assumes "\<bar>y - of_nat n / 257\<bar> < 1 / 514"
  shows "cvRound \<bar>y\<bar> = (int n + 128) div 257"
  using near_257 [OF assms] by (rule cvRound_unique)

lemma cvRound_scaled: "cvRound \<bar>of_nat n * (255 / 65535) + 0\<bar> = (int n + 128) div 257"
proof -
  have "(of_nat n :: rat) * (255 / 65535) + 0 = of_nat n / 257" by simp
  then show ?thesis using cvRound_near [of "of_nat n / 257" n] by simp
qed

lemma round_scaled: "round (of_nat n * 255 / 65535 :: rat) = (int n + 128) div 257"
proof -
  have e: "(of_nat n :: rat) * 255 / 65535 = of_nat n / 257" by simp
  have "\<bar>(of_nat n :: rat) / 257 - of_nat n / 257\<bar> < 1 / 514" by simp
  from near_257 [OF this] have "of_int ((int n + 128) div 257) - 1 / 2 < (of_nat n :: rat) / 257"
    "(of_nat n :: rat) / 257 < of_int ((int n + 128) div 257) + 1 / 2"
    by simp_all
  then show ?thesis unfolding e by (intro round_unique) simp_all
qed

lemma rescale_spec_eq: "n \<le> 65535 \<Longrightarrow> rescale_spec n = (int n + 128) div 257"
  unfolding rescale_spec_def round_scaled by simp

lemma rescaled_range:
  assumes "n \<le> 65535"
  shows "0 \<le> (int n + 128) div 257 \<and> (int n + 128) div 257 \<le> 255"
proof
  show "0 \<le> (int n + 128) div 257" by simp
  have "int n + 128 \<le> 65663" using assms by simp
  then have "(int n + 128) div 257 \<le> 65663 div 257" by (rule zdiv_mono1) simp
  then show "(int n + 128) div 257 \<le> 255" by simp
qed

lemma convertScaleAbs_px_value:
  "convertScaleAbs_px (255 / 65535) 0 x = word_of_int ((int (unat x) + 128) div 257)"
proof -
  have "unat x < 2 ^ 16" using unsigned_less [of x, where 'a = nat] by simp
  then have "unat x \<le> 65535" by simp
  then have "0 \<le> (int (unat x) + 128) div 257 \<and> (int (unat x) + 128) div 257 \<le> 255"
    by (rule rescaled_range)
  then have "max 0 (min 255 ((int (unat x) + 128) div 257)) = (int (unat x) + 128) div 257"
    by (simp add: max_def min_def)
  then show ?thesis
    unfolding convertScaleAbs_px_def saturate_uchar_def cvRound_scaled by (simp only:)
qed

lemma convertScaleAbs_px_value':
  "convertScaleAbs_px (1 / 257) 0 x = word_of_int ((int (unat x) + 128) div 257)"
  using convertScaleAbs_px_value [of x] by simp

lemma convertScaleAbs_px_spec:
  "uint (convertScaleAbs_px (255 / 65535) 0 x) = rescale_spec (unat x)"
proof -
  have "unat x < 2 ^ 16" using unsigned_less [of x, where 'a = nat] by simp
  then have n: "unat x \<le> 65535" by simp
  let ?k = "(int (unat x) + 128) div 257"
  have r: "0 \<le> ?k \<and> ?k \<le> 255" using n by (rule rescaled_range)
  then have "uint (word_of_int ?k :: byte) = ?k"
    by (simp add: uint_word_of_int take_bit_int_eq_self)
  then show ?thesis
    unfolding convertScaleAbs_px_value rescale_spec_eq [OF n] .
qed

lemma convertScaleAbs_px_spec':
  "uint (convertScaleAbs_px (1 / 257) 0 x) = rescale_spec (unat x)"
  using convertScaleAbs_px_spec [of x] by simp

lemma index3_bound:
  fixes r col ch h w c :: nat
  assumes "r < h" "col < w" "ch < c"
  shows "(r * w + col) * c + ch < h * w * c"
proof -
  have "r * w + col < Suc r * w" using assms(2) by simp
  also have "\<dots> \<le> h * w" using assms(1) by (intro mult_le_mono1) simp
  finally have "Suc (r * w + col) \<le> h * w" by simp
  then have "Suc (r * w + col) * c \<le> h * w * c" by (rule mult_le_mono1)
  then show ?thesis using assms(3) by simp
qed

lemma rescale_spec_byte: "uint (word_of_int (rescale_spec n) :: byte) = rescale_spec n"
proof -
  have "0 \<le> rescale_spec n \<and> rescale_spec n \<le> 255"
    by (simp add: rescale_spec_def)
  then show ?thesis by (simp add: uint_word_of_int take_bit_int_eq_self)
qed

lemma convertScaleAbs_px_word:
  "convertScaleAbs_px (255 / 65535) 0 x = word_of_int (rescale_spec (unat x))"
proof -
  have "unat x < 2 ^ 16" using unsigned_less [of x, where 'a = nat] by simp
  then have "unat x \<le> 65535" by simp
  then show ?thesis
    unfolding convertScaleAbs_px_value by (simp only: rescale_spec_eq)
qed

lemma convertScaleAbs_px_word':
  "convertScaleAbs_px (1 / 257) 0 x = word_of_int (rescale_spec (unat x))"
  using convertScaleAbs_px_word [of x] by simp

text \<open>What \<open>convertScaleAbs\<close> makes of the samples of a frame.\<close>

lemma convertScaleAbs_samples:
  "convertScaleAbs (samples_of p) (255 / 65535) 0 =
     (if imageSize p div 2 = 0 then None
      else Some ((convert_spec p)
                   \<lparr>shape := (if imageChannelCount p = 1 then [imageHeight p, imageWidth p]
                              else [imageHeight p, imageWidth p, imageChannelCount p])\<rparr>))"
  by (simp add: convertScaleAbs_def samples_of_def convert_spec_def arr_size_def
        convertScaleAbs_px_word')

lemma convertScaleAbs_samples':
  "convertScaleAbs (samples_of p) (1 / 257) 0 =
     (if imageSize p div 2 = 0 then None
      else Some ((convert_spec p)
                   \<lparr>shape := (if imageChannelCount p = 1 then [imageHeight p, imageWidth p]
                              else [imageHeight p, imageWidth p, imageChannelCount p])\<rparr>))"
  using convertScaleAbs_samples [of p] by simp

lemma convert_spec_shape:
  "shape (convert_spec p) = [imageHeight p, imageWidth p, imageChannelCount p]"
  by (simp add: convert_spec_def samples_of_def)

lemma convert_spec_reshape:
  "(convert_spec p)\<lparr>shape := [imageHeight p, imageWidth p, imageChannelCount p]\<rparr>
     = convert_spec p"
  by (simp add: convert_spec_def samples_of_def)

lemma convert_spec_elems:
  "map uint (elems (convert_spec p)) = map (\<lambda>x. rescale_spec (unat x)) (elems (samples_of p))"
  by (simp add: convert_spec_def rescale_spec_byte)

lemma convert_spec_at3:
  assumes "imageSize p = 2 * (imageHeight p * imageWidth p * imageChannelCount p)"
    and "r < imageHeight p" "col < imageWidth p" "ch < imageChannelCount p"
  shows "uint (at3 (convert_spec p) r col ch) = rescale_spec (unat (at3 (samples_of p) r col ch))"
proof -
  have "(r * imageWidth p + col) * imageChannelCount p + ch
          < imageHeight p * imageWidth p * imageChannelCount p"
    using assms(2-4) by (rule index3_bound)
  then have "(r * imageWidth p + col) * imageChannelCount p + ch < length (elems (samples_of p))"
    using assms(1) by (simp add: samples_of_def)
  then show ?thesis
    by (simp add: at3_def convert_spec_def samples_of_def rescale_spec_byte)
qed

text \<open>A frame of three channels and 16 bits with two bytes for each sample of
  \<open>height * width * channels\<close> and at least one pixel is converted by all three scripts.\<close>

lemma conforming_is_converted:
  assumes "imageChannelCount p = 3" and "imageChannelBitDepth p = 16"
    and "imageSize p = 2 * (imageHeight p * imageWidth p * imageChannelCount p)"
    and "0 < imageHeight p * imageWidth p"
  shows "display_and_save_frame p
           = Inr ([Imshow (convert_spec p), Imwrite (convert_spec p), WaitKey],
                  Some (convert_spec p), None)"
    and "convert_frame p flag = Inr ([], Some (convert_spec p), flag)"
    and "extract_block p = Inr ([], Some (convert_spec p))"
proof -
  have c: "convertScaleAbs (samples_of p) (255 / 65535) 0 = Some (convert_spec p)"
    using assms convert_spec_reshape [of p] by (simp add: convertScaleAbs_samples')
  show "display_and_save_frame p
           = Inr ([Imshow (convert_spec p), Imwrite (convert_spec p), WaitKey],
                  Some (convert_spec p), None)"
    unfolding display_and_save_frame_cases c using assms by simp
  show "convert_frame p flag = Inr ([], Some (convert_spec p), flag)"
    unfolding convert_frame_cases c using assms by simp
  have "samples_of p
          = \<lparr>shape = [imageHeight p, imageWidth p, 3],
             elems = uint16_le (from_address (imageSize p) (imageData p))\<rparr>"
    using assms(1) by (simp add: samples_of_def)
  with c have "convertScaleAbs
                 \<lparr>shape = [imageHeight p, imageWidth p, 3],
                  elems = uint16_le (from_address (imageSize p) (imageData p))\<rparr>
                 (255 / 65535) 0 = Some (convert_spec p)"
    by simp
  then show "extract_block p = Inr ([], Some (convert_spec p))"
    using assms
    by (simp add: extract_block_def frombuffer_uint16_cases Let_def reshape_def arr_size_def)
qed

lemma accepted_is_conforming:
  assumes "display_and_save_frame p = Inr (acts, Some img, w)
           \<or> convert_frame p flag = Inr (acts, Some img, flag')"
  shows "imageChannelCount p = 3 \<and> imageChannelBitDepth p = 16
    \<and> imageSize p = 2 * (imageHeight p * imageWidth p * imageChannelCount p)
    \<and> 0 < imageHeight p * imageWidth p \<and> img = convert_spec p"
proof -
  from assms have
    a: "imageChannelCount p = 3 \<and> imageChannelBitDepth p = 16 \<and> even (imageSize p)
        \<and> imageSize p div 2 = imageHeight p * imageWidth p * imageChannelCount p
        \<and> convertScaleAbs (samples_of p) (255 / 65535) 0 = Some img"
    by (auto simp: display_and_save_frame_cases convert_frame_cases
          split: if_splits option.splits)
  then have s: "imageSize p = 2 * (imageHeight p * imageWidth p * imageChannelCount p)"
    by (metis dvd_mult_div_cancel)
  from a have "imageSize p div 2 \<noteq> 0 \<and> img = convert_spec p"
    using convert_spec_reshape [of p]
    by (auto simp: convertScaleAbs_samples' split: if_splits)
  with a s show ?thesis by auto
qed

lemma extract_block_rescales:
  assumes "extract_block p = Inr (acts, Some blk)" and "imageChannelBitDepth p > 8"
  shows "imageSize p = 2 * (imageHeight p * imageWidth p * imageChannelCount p)
    \<and> elems blk = elems (convert_spec p)
    \<and> shape blk = (if imageChannelCount p = 1 then [imageHeight p, imageWidth p]
                   else [imageHeight p, imageWidth p, imageChannelCount p])"
proof -
  let ?axis = "if imageChannelCount p > 1 then imageChannelCount p else 1"
  let ?arr3 = "\<lparr>shape = [imageHeight p, imageWidth p, ?axis],
                elems = uint16_le (from_address (imageSize p) (imageData p))\<rparr>"
  from assms have
    a: "even (imageSize p)
        \<and> imageSize p div 2 = imageHeight p * imageWidth p * imageChannelCount p
        \<and> convertScaleAbs ?arr3 (255 / 65535) 0 = Some blk"
    by (auto simp: extract_block_def frombuffer_uint16_cases Let_def reshape_def arr_size_def
          split: if_splits)
  then have s: "imageSize p = 2 * (imageHeight p * imageWidth p * imageChannelCount p)"
    by (metis dvd_mult_div_cancel)
  from a have n: "imageSize p div 2 \<noteq> 0"
    by (auto simp: convertScaleAbs_def arr_size_def split: if_splits)
  with a have "imageChannelCount p \<noteq> 0" by auto
  then have "?arr3 = samples_of p" by (auto simp: samples_of_def)
  with a have "convertScaleAbs (samples_of p) (255 / 65535) 0 = Some blk" by simp
  with n have "blk = (convert_spec p)
                 \<lparr>shape := (if imageChannelCount p = 1 then [imageHeight p, imageWidth p]
                            else [imageHeight p, imageWidth p, imageChannelCount p])\<rparr>"
    by (simp add: convertScaleAbs_samples')
  with s show ?thesis by simp
qed

text \<open>
  C1. A frame of three channels and 16 bits whose buffer holds two bytes for each of its
  \<open>height * width * channels\<close> samples, with at least one pixel, is converted by
  \<open>display_and_save_frame\<close>, by \<open>convert_frame\<close> and by \<open>extract_block\<close>, and these are the
  only frames that the first two accept. The image made is \<open>convert_spec\<close> of the frame: it
  has the shape height, width, channels, and each of its 8-bit values is
  \<open>clamp(round(in * 255 / 65535), 0, 255)\<close> of the 16-bit sample at the same row, column and
  channel, so that the output keeps the row-major, channel-interleaved order of the input.
  A frame of 16 bits that \<open>extract_block\<close> accepts, whatever its channels, is rescaled in the
  same way, sample by sample (with one channel the image comes without the channel axis).
\<close>

theorem accepted_frame_is_rescaled:
  "(imageChannelCount p = 3 \<and> imageChannelBitDepth p = 16
      \<and> imageSize p = 2 * (imageHeight p * imageWidth p * imageChannelCount p)
      \<and> 0 < imageHeight p * imageWidth p \<longrightarrow>
      display_and_save_frame p
        = Inr ([Imshow (convert_spec p), Imwrite (convert_spec p), WaitKey],
               Some (convert_spec p), None)
      \<and> convert_frame p flag = Inr ([], Some (convert_spec p), flag)
      \<and> extract_block p = Inr ([], Some (convert_spec p)))
   \<and> (display_and_save_frame p = Inr (acts, Some img, w)
        \<or> convert_frame p flag = Inr (acts, Some img, flag') \<longrightarrow>
        imageChannelCount p = 3 \<and> imageChannelBitDepth p = 16
        \<and> imageSize p = 2 * (imageHeight p * imageWidth p * imageChannelCount p)
        \<and> 0 < imageHeight p * imageWidth p \<and> img = convert_spec p)
   \<and> (extract_block p = Inr (acts', Some blk) \<and> imageChannelBitDepth p = 16 \<longrightarrow>
        imageSize p = 2 * (imageHeight p * imageWidth p * imageChannelCount p)
        \<and> elems blk = elems (convert_spec p)
        \<and> shape blk = (if imageChannelCount p = 1 then [imageHeight p, imageWidth p]
                       else [imageHeight p, imageWidth p, imageChannelCount p]))
   \<and> shape (convert_spec p) = [imageHeight p, imageWidth p, imageChannelCount p]
   \<and> map uint (elems (convert_spec p))
       = map (\<lambda>x. rescale_spec (unat x)) (elems (samples_of p))
   \<and> (imageSize p = 2 * (imageHeight p * imageWidth p * imageChannelCount p) \<longrightarrow>
        (\<forall>r < imageHeight p. \<forall>col < imageWidth p. \<forall>ch < imageChannelCount p.
            uint (at3 (convert_spec p) r col ch)
              = rescale_spec (unat (at3 (samples_of p) r col ch))))"
proof (intro conjI impI allI)
  assume c: "imageChannelCount p = 3 \<and> imageChannelBitDepth p = 16
      \<and> imageSize p = 2 * (imageHeight p * imageWidth p * imageChannelCount p)
      \<and> 0 < imageHeight p * imageWidth p"
  then show "display_and_save_frame p
        = Inr ([Imshow (convert_spec p), Imwrite (convert_spec p), WaitKey],
               Some (convert_spec p), None)"
    by (intro conforming_is_converted(1)) simp_all
  from c show "convert_frame p flag = Inr ([], Some (convert_spec p), flag)"
    by (intro conforming_is_converted(2)) simp_all
  from c show "extract_block p = Inr ([], Some (convert_spec p))"
    by (intro conforming_is_converted(3)) simp_all
next
  assume "display_and_save_frame p = Inr (acts, Some img, w)
        \<or> convert_frame p flag = Inr (acts, Some img, flag')"
  from accepted_is_conforming [OF this]
  show "imageChannelCount p = 3" and "imageChannelBitDepth p = 16"
    and "imageSize p = 2 * (imageHeight p * imageWidth p * imageChannelCount p)"
    and "0 < imageHeight p * imageWidth p" and "img = convert_spec p"
    by simp_all
next
  assume "extract_block p = Inr (acts', Some blk) \<and> imageChannelBitDepth p = 16"
  then have "extract_block p = Inr (acts', Some blk)" and "imageChannelBitDepth p > 8"
    by simp_all
  from extract_block_rescales [OF this]
  show "imageSize p = 2 * (imageHeight p * imageWidth p * imageChannelCount p)"
    and "elems blk = elems (convert_spec p)"
    and "shape blk = (if imageChannelCount p = 1 then [imageHeight p, imageWidth p]
                      else [imageHeight p, imageWidth p, imageChannelCount p])"
    by simp_all
next
  show "shape (convert_spec p) = [imageHeight p, imageWidth p, imageChannelCount p]"
    by (rule convert_spec_shape)
  show "map uint (elems (convert_spec p))
          = map (\<lambda>x. rescale_spec (unat x)) (elems (samples_of p))"
    by (rule convert_spec_elems)
next
  fix r col ch
  assume "imageSize p = 2 * (imageHeight p * imageWidth p * imageChannelCount p)"
    and "r < imageHeight p" "col < imageWidth p" "ch < imageChannelCount p"
  then show "uint (at3 (convert_spec p) r col ch)
               = rescale_spec (unat (at3 (samples_of p) r col ch))"
    by (rule convert_spec_at3)
qed

lemma rgb16_samples:
  "uint16_le (from_address 12 (\<lambda>i. [0, 0, 255, 255, 128, 0, 129, 0, 1, 1, 0, 128] ! i))
     = [0, 65535, 128, 129, 257, 32768]"
  by (simp add: from_address_def upt_conv_Cons)

lemma rgb16_converted:
  "convert_spec rgb16_frame = \<lparr>shape = [1, 2, 3], elems = [0, 255, 0, 1, 1, 128]\<rparr>"
  by (simp add: convert_spec_def samples_of_def rgb16_frame_def rgb16_samples rescale_spec_eq)

theorem accepted_frame_is_rescaled_witness:
  "display_and_save_frame rgb16_frame
     = Inr ([Imshow \<lparr>shape = [1, 2, 3], elems = [0, 255, 0, 1, 1, 128]\<rparr>,
             Imwrite \<lparr>shape = [1, 2, 3], elems = [0, 255, 0, 1, 1, 128]\<rparr>, WaitKey],
            Some \<lparr>shape = [1, 2, 3], elems = [0, 255, 0, 1, 1, 128]\<rparr>, None)
   \<and> convert_frame rgb16_frame False
       = Inr ([], Some \<lparr>shape = [1, 2, 3], elems = [0, 255, 0, 1, 1, 128]\<rparr>, False)
   \<and> extract_block rgb16_frame
       = Inr ([], Some \<lparr>shape = [1, 2, 3], elems = [0, 255, 0, 1, 1, 128]\<rparr>)
   \<and> map rescale_spec [0, 65535, 128, 129, 257, 32768] = [0, 255, 0, 1, 1, 128]"
proof -
  have "imageChannelCount rgb16_frame = 3 \<and> imageChannelBitDepth rgb16_frame = 16
      \<and> imageSize rgb16_frame
          = 2 * (imageHeight rgb16_frame * imageWidth rgb16_frame * imageChannelCount rgb16_frame)
      \<and> 0 < imageHeight rgb16_frame * imageWidth rgb16_frame"
    by (simp add: rgb16_frame_def)
  with accepted_frame_is_rescaled [of rgb16_frame False]
  have "display_and_save_frame rgb16_frame
          = Inr ([Imshow (convert_spec rgb16_frame), Imwrite (convert_spec rgb16_frame), WaitKey],
                 Some (convert_spec rgb16_frame), None)
        \<and> convert_frame rgb16_frame False = Inr ([], Some (convert_spec rgb16_frame), False)
        \<and> extract_block rgb16_frame = Inr ([], Some (convert_spec rgb16_frame))
        \<and> map uint (elems (convert_spec rgb16_frame))
            = map (\<lambda>x. rescale_spec (unat x)) (elems (samples_of rgb16_frame))"
    by blast
  then show ?thesis
    unfolding rgb16_converted
    by (simp add: samples_of_def rgb16_frame_def rgb16_samples)
qed

section \<open>Malformed frames are rejected\<close>

lemma bytesPerSample_16 [simp]: "bytesPerSample 16 = 2"
  by (simp add: bytesPerSample_def)

lemma bytesPerSample_word: "8 < bd \<Longrightarrow> bd \<le> 16 \<Longrightarrow> bytesPerSample bd = 2"
  unfolding bytesPerSample_def by presburger

lemma bytesPerSample_byte: "0 < bd \<Longrightarrow> bd \<le> 8 \<Longrightarrow> bytesPerSample bd = 1"
  unfolding bytesPerSample_def by presburger

lemma extract_block_malformed:
  assumes "malformed p" and "0 < imageChannelBitDepth p" and "imageChannelBitDepth p \<le> 16"
    and "imageChannelBitDepth p \<le> 8 \<or> even (imageSize p)"
  shows "extract_block p = Inr ([Print SkippingMalformedFrame], None)"
proof (cases "imageChannelBitDepth p > 8")
  case True
  with assms(3) have "bytesPerSample (imageChannelBitDepth p) = 2"
    by (simp add: bytesPerSample_word)
  with assms True have "even (imageSize p)"
    and "imageSize p div 2 \<noteq> imageHeight p * imageWidth p * imageChannelCount p"
    by (auto simp: malformed_def)
  with True show ?thesis
    by (simp add: extract_block_def frombuffer_uint16_cases arr_size_def Let_def)
next
  case False
  with assms(2) have "bytesPerSample (imageChannelBitDepth p) = 1"
    by (simp add: bytesPerSample_byte)
  with assms(1) have "imageSize p \<noteq> imageHeight p * imageWidth p * imageChannelCount p"
    by (auto simp: malformed_def mult.commute)
  with False show ?thesis
    by (simp add: extract_block_def frombuffer_uint8_def arr_size_def Let_def)
qed

lemma display_rejects_malformed:
  assumes "malformed p" and "even (imageSize p)"
  shows "display_and_save_frame p =
           Inr ([], None,
                Some (ImageInfo (imageSize p) (imageHeight p) (imageWidth p) (imageChannelCount p)
                        (imageChannelBitDepth p) (imagePixelFormat p) (imageSize p div 2)))"
proof (cases "imageChannelBitDepth p = 16")
  case True
  with assms have "imageSize p div 2 \<noteq> imageHeight p * imageWidth p * imageChannelCount p"
    by (auto simp: malformed_def)
  with assms(2) show ?thesis by (simp add: display_and_save_frame_cases)
next
  case False
  with assms(2) show ?thesis by (simp add: display_and_save_frame_cases)
qed

lemma convert_rejects_malformed:
  assumes "malformed p"
    and "imageChannelCount p \<noteq> 3 \<or> imageChannelBitDepth p \<noteq> 16 \<or> even (imageSize p)"
  shows "convert_frame p flag =
           Inr (fst (handle_unsupported_format (convert_rejection p) flag), None, True)"
proof (cases "imageChannelCount p \<noteq> 3 \<or> imageChannelBitDepth p \<noteq> 16")
  case True
  then show ?thesis
    by (simp add: convert_frame_cases convert_rejection_def handle_flag)
next
  case False
  with assms have "even (imageSize p)"
    and "imageSize p div 2 \<noteq> imageHeight p * imageWidth p * imageChannelCount p"
    by (auto simp: malformed_def)
  with False show ?thesis
    by (simp add: convert_frame_cases convert_rejection_def handle_flag)
qed

text \<open>
  C5, as the code has it. A completed frame whose buffer size disagrees with
  \<open>width * height * channels * bytesPerSample(bitDepth)\<close> is rejected and never converted,
  and each of the three loops goes on with the next pass, nothing being added to the frames
  or blocks it has gathered, as long as the buffer is a whole number of 16-bit samples
  wherever it is viewed as such. \<open>convert_frame\<close> reports the frame as
  \<open>Invalid array size\<close> only when it declares 3 channels and 16 bits; for another
  declaration the check of channels and bit depth comes first and the format is reported.
  \<open>display_and_save_frame\<close> reports every rejection with the same line of image data.
  \<open>extract_block\<close> reports the malformed frame whatever the channels are, for a bit depth
  from 1 to 16: it takes every depth above 8 as two bytes a sample.
\<close>

theorem malformed_frame_is_rejected:
  assumes "malformed p" and "delivered it = p" and "isRequestNrValid (wait_nr it)" and "isOK p"
  shows "(even (imageSize p) \<longrightarrow>
            display_and_save_frame p =
              Inr ([], None,
                   Some (ImageInfo (imageSize p) (imageHeight p) (imageWidth p)
                           (imageChannelCount p) (imageChannelBitDepth p) (imagePixelFormat p)
                           (imageSize p div 2)))
            \<and> snd (capture_frames_loop i (prev, flag) (it # its))
                = snd (capture_frames_loop (Suc i) (Some (nat (wait_nr it)), True) its))
    \<and> (imageChannelCount p \<noteq> 3 \<or> imageChannelBitDepth p \<noteq> 16 \<or> even (imageSize p) \<longrightarrow>
            convert_frame p flag =
              Inr (fst (handle_unsupported_format
                          (if imageChannelCount p \<noteq> 3 \<or> imageChannelBitDepth p \<noteq> 16
                           then FormatInfo (imageChannelCount p) (imageChannelBitDepth p)
                           else InvalidArraySize) flag),
                   None, True)
            \<and> (\<not> stop_recording s \<longrightarrow>
                  snd (capture_and_buffer_loop s (it # its))
                    = snd (capture_and_buffer_loop
                             (s\<lparr>stop_recording := (enter it \<noteq> NoEnter), warning_flag := True\<rparr>)
                             its)))
    \<and> (0 < imageChannelBitDepth p \<and> imageChannelBitDepth p \<le> 16
          \<and> (imageChannelBitDepth p \<le> 8 \<or> even (imageSize p)) \<longrightarrow>
            extract_block p = Inr ([Print SkippingMalformedFrame], None)
            \<and> (\<not> stop_acquisition b \<longrightarrow>
                  capture_blocks_loop b (it # its)
                    = (CheckStop False # wait_actions it @ [Print SkippingMalformedFrame]
                         @ release_and_requeue (previous_request b) it
                         @ fst (capture_blocks_loop
                                  (b\<lparr>stop_acquisition := (enter it \<noteq> NoEnter),
                                      previous_request := Some (nat (wait_nr it))\<rparr>) its),
                       snd (capture_blocks_loop
                              (b\<lparr>stop_acquisition := (enter it \<noteq> NoEnter),
                                  previous_request := Some (nat (wait_nr it))\<rparr>) its))))"
proof (intro conjI impI)
  assume e: "even (imageSize p)"
  show d: "display_and_save_frame p =
              Inr ([], None,
                   Some (ImageInfo (imageSize p) (imageHeight p) (imageWidth p)
                           (imageChannelCount p) (imageChannelBitDepth p) (imagePixelFormat p)
                           (imageSize p div 2)))"
    using assms(1) e by (rule display_rejects_malformed)
  show "snd (capture_frames_loop i (prev, flag) (it # its))
          = snd (capture_frames_loop (Suc i) (Some (nat (wait_nr it)), True) its)"
    using assms(2-4) d by (simp add: Let_def case_prod_beta handle_flag)
next
  assume e: "imageChannelCount p \<noteq> 3 \<or> imageChannelBitDepth p \<noteq> 16 \<or> even (imageSize p)"
  have c: "convert_frame p f =
             Inr (fst (handle_unsupported_format (convert_rejection p) f), None, True)" for f
    using assms(1) e by (rule convert_rejects_malformed)
  then show "convert_frame p flag =
              Inr (fst (handle_unsupported_format
                          (if imageChannelCount p \<noteq> 3 \<or> imageChannelBitDepth p \<noteq> 16
                           then FormatInfo (imageChannelCount p) (imageChannelBitDepth p)
                           else InvalidArraySize) flag),
                   None, True)"
    by (simp add: convert_rejection_def)
  assume "\<not> stop_recording s"
  then show "snd (capture_and_buffer_loop s (it # its))
               = snd (capture_and_buffer_loop
                        (s\<lparr>stop_recording := (enter it \<noteq> NoEnter), warning_flag := True\<rparr>) its)"
    using assms(2-4) c [of "warning_flag s"]
    by (simp add: capture_and_buffer_body_def Let_def case_prod_beta wait_for_enter_def)
next
  assume d: "0 < imageChannelBitDepth p \<and> imageChannelBitDepth p \<le> 16
          \<and> (imageChannelBitDepth p \<le> 8 \<or> even (imageSize p))"
  with assms(1) show x: "extract_block p = Inr ([Print SkippingMalformedFrame], None)"
    by (intro extract_block_malformed) simp_all
  assume "\<not> stop_acquisition b"
  then show "capture_blocks_loop b (it # its)
               = (CheckStop False # wait_actions it @ [Print SkippingMalformedFrame]
                    @ release_and_requeue (previous_request b) it
                    @ fst (capture_blocks_loop
                             (b\<lparr>stop_acquisition := (enter it \<noteq> NoEnter),
                                 previous_request := Some (nat (wait_nr it))\<rparr>) its),
                  snd (capture_blocks_loop
                         (b\<lparr>stop_acquisition := (enter it \<noteq> NoEnter),
                             previous_request := Some (nat (wait_nr it))\<rparr>) its))"
    using assms(2-4) x
    by (simp add: capture_blocks_body_def Let_def case_prod_beta wait_for_enter_def)
qed

theorem malformed_frame_is_rejected_witness:
  "malformed short_rgb16
   \<and> display_and_save_frame short_rgb16 = Inr ([], None, Some (ImageInfo 4 1 1 3 16 1 2))
   \<and> convert_frame short_rgb16 False = Inr (verbose_diagnostic InvalidArraySize, None, True)
   \<and> extract_block short_rgb16 = Inr ([Print SkippingMalformedFrame], None)
   \<and> snd (capture_frames_loop 0 (None, False) [pass_of 0 short_rgb16])
       = Returned (Some 0, True)
   \<and> snd (capture_and_buffer_loop \<lparr>stop_recording = False, requests = [], warning_flag = False\<rparr>
             [pass_of 0 short_rgb16])
       = StillRunning
   \<and> capture_blocks_loop empty_blocks [pass_of 0 short_rgb16]
       = ([CheckStop False, ImageRequestWaitFor 0, Print SkippingMalformedFrame,
           ImageRequestSingle True, CheckStop False], StillRunning)"
proof -
  have m: "malformed short_rgb16"
    by (simp add: malformed_def short_rgb16_def odd_rgb16_def)
  have "delivered (pass_of 0 short_rgb16) = short_rgb16"
    and "isRequestNrValid (wait_nr (pass_of 0 short_rgb16))" and "isOK short_rgb16"
    by (simp_all add: pass_of_def isRequestNrValid_def short_rgb16_def odd_rgb16_def)
  from malformed_frame_is_rejected
         [where i = 0 and prev = None and flag = False and its = "[]"
            and s = "\<lparr>stop_recording = False, requests = [], warning_flag = False\<rparr>"
            and b = empty_blocks,
          OF m this]
  show ?thesis
    using m
    by (simp add: short_rgb16_def odd_rgb16_def handle_unsupported_format_def pass_of_def
          empty_blocks_def wait_actions_def release_and_requeue_def)
qed

text \<open>
  C5 fails as it is worded. The 8-bit frame with three bytes for four pixels is malformed,
  yet \<open>convert_frame\<close> reports its format (1 channel, 8 bits) and not its size. The 16-bit
  frame with five bytes is malformed, and \<open>np.frombuffer\<close> raises ValueError on it, which
  ends both area-scan loops. The 32-bit frame of one pixel with two bytes instead of four is
  malformed, and \<open>extract_block\<close> converts it.
\<close>

theorem malformed_frame_counterexample:
  "malformed truncated_mono8
   \<and> convert_frame truncated_mono8 False = Inr (verbose_diagnostic (FormatInfo 1 8), None, True)
   \<and> malformed odd_rgb16
   \<and> snd (capture_and_buffer (session_of [pass_of 0 odd_rgb16])) = Raised ValueError
   \<and> snd (capture_frames 0 [pass_of 0 odd_rgb16]) = Raised ValueError
   \<and> malformed half_mono32
   \<and> extract_block half_mono32 = Inr ([], Some \<lparr>shape = [1, 1], elems = [128]\<rparr>)"
proof (intro conjI)
  show "malformed truncated_mono8"
    by (simp add: malformed_def truncated_mono8_def mono8_frame_def bytesPerSample_def)
  show "convert_frame truncated_mono8 False = Inr (verbose_diagnostic (FormatInfo 1 8), None, True)"
    by (simp add: convert_frame_cases truncated_mono8_def mono8_frame_def
          handle_unsupported_format_def)
  show "malformed odd_rgb16"
    by (simp add: malformed_def odd_rgb16_def)
  have c: "convert_frame odd_rgb16 False = Inl ValueError"
    by (simp add: convert_frame_cases odd_rgb16_def)
  have o: "isOK odd_rgb16" by (simp add: odd_rgb16_def)
  show "snd (capture_and_buffer (session_of [pass_of 0 odd_rgb16])) = Raised ValueError"
    using c o
    by (simp add: capture_and_buffer_outcome capture_and_buffer_start session_of_def
          capture_and_buffer_body_def pass_of_def isRequestNrValid_def)
  have d: "display_and_save_frame odd_rgb16 = Inl ValueError"
    by (simp add: display_and_save_frame_cases odd_rgb16_def)
  show "snd (capture_frames 0 [pass_of 0 odd_rgb16]) = Raised ValueError"
    using d o
    by (simp add: capture_frames_outcome pass_of_def isRequestNrValid_def)
  show "malformed half_mono32"
    by (simp add: malformed_def half_mono32_def bytesPerSample_def)
  have "uint16_le (from_address 2 (\<lambda>i. [0, 128] ! i)) = [32768]"
    by (simp add: from_address_def upt_conv_Cons)
  then show "extract_block half_mono32 = Inr ([], Some \<lparr>shape = [1, 1], elems = [128]\<rparr>)"
    by (simp add: extract_block_def half_mono32_def frombuffer_uint16_cases Let_def
          reshape_def arr_size_def convertScaleAbs_def convertScaleAbs_px_value')
qed

section \<open>8-bit blocks\<close>

lemma extract_block_uint8:
  assumes "imageChannelBitDepth p \<le> 8"
    and "imageSize p = imageWidth p * imageHeight p * imageChannelCount p"
    and "0 < imageChannelCount p"
  shows "extract_block p = Inr ([], Some (raw_block p))"
proof -
  have a: "imageSize p = imageHeight p * imageWidth p * imageChannelCount p"
    using assms(2) by (simp add: mult.commute)
  have b: "(if 1 < imageChannelCount p then imageChannelCount p else 1) = imageChannelCount p"
    using assms(3) by auto
  show ?thesis
    using assms(1,3) a
    by (simp add: extract_block_def frombuffer_uint8_def arr_size_def Let_def reshape_def
          raw_block_def)
qed

text \<open>
  C9. In the block-scan script a completed frame (one with at least one channel) that
  declares at most 8 bits and has \<open>width * height * channels\<close> elements is accepted by
  \<open>extract_block\<close> whatever its channel count and bit depth are, as the bytes of its buffer
  in the shape height, width, channels; the pass of the loop appends this block to
  \<open>stitched_blocks\<close>. (When the block is the twentieth of a run of twenty, the pass also
  stacks the last forty blocks for the preview, and a failure of that stacking is the only
  way the pass can end otherwise.)
\<close>

theorem eight_bit_block_is_appended_unchanged:
  assumes "imageChannelBitDepth p \<le> 8"
    and "imageSize p = imageWidth p * imageHeight p * imageChannelCount p"
    and "0 < imageChannelCount p"
    and "delivered it = p" and "isRequestNrValid (wait_nr it)" and "isOK p"
  shows "extract_block p = Inr ([], Some (raw_block p))
    \<and> elems (raw_block p) = from_address (imageSize p) (imageData p)
    \<and> (case snd (capture_blocks_body s it) of
          Inr s' \<Rightarrow> stitched_blocks s' = stitched_blocks s @ [raw_block p]
        | Inl e \<Rightarrow> Suc (length (stitched_blocks s)) mod 20 = 0
                   \<and> vstack (drop (Suc (length (stitched_blocks s)) - 40)
                                (stitched_blocks s @ [raw_block p])) = Inl e)"
proof -
  have x: "extract_block p = Inr ([], Some (raw_block p))"
    using assms(1-3) by (rule extract_block_uint8)
  have "case snd (capture_blocks_body s it) of
          Inr s' \<Rightarrow> stitched_blocks s' = stitched_blocks s @ [raw_block p]
        | Inl e \<Rightarrow> Suc (length (stitched_blocks s)) mod 20 = 0
                   \<and> vstack (drop (Suc (length (stitched_blocks s)) - 40)
                                (stitched_blocks s @ [raw_block p])) = Inl e"
    using assms(4-6) x
    by (simp add: capture_blocks_body_def Let_def split: sum.splits)
  with x show ?thesis by (simp add: raw_block_def)
qed

theorem eight_bit_block_is_appended_unchanged_witness:
  "extract_block mono8_frame = Inr ([], Some \<lparr>shape = [2, 2, 1], elems = [0, 1, 2, 3]\<rparr>)
   \<and> snd (capture_blocks_body empty_blocks (pass_of 0 mono8_frame))
       = Inr \<lparr>stop_acquisition = False, previous_request = Some 0,
              stitched_blocks = [\<lparr>shape = [2, 2, 1], elems = [0, 1, 2, 3]\<rparr>]\<rparr>"
proof -
  have r: "raw_block mono8_frame = \<lparr>shape = [2, 2, 1], elems = [0, 1, 2, 3]\<rparr>"
    by (simp add: raw_block_def mono8_frame_def from_address_def upt_conv_Cons)
  have "imageChannelBitDepth mono8_frame \<le> 8"
    and "imageSize mono8_frame
           = imageWidth mono8_frame * imageHeight mono8_frame * imageChannelCount mono8_frame"
    and "0 < imageChannelCount mono8_frame"
    and "delivered (pass_of 0 mono8_frame) = mono8_frame"
    and "isRequestNrValid (wait_nr (pass_of 0 mono8_frame))" and "isOK mono8_frame"
    by (simp_all add: mono8_frame_def pass_of_def isRequestNrValid_def)
  from eight_bit_block_is_appended_unchanged [OF this, of empty_blocks]
  have x: "extract_block mono8_frame = Inr ([], Some (raw_block mono8_frame))"
    by blast
  then show ?thesis
    unfolding r
    by (simp add: capture_blocks_body_def Let_def pass_of_def isRequestNrValid_def
          empty_blocks_def wait_for_enter_def mono8_frame_def)
qed

section \<open>The stitch sink\<close>

lemma vstack_same_rows:
  assumes "blocks \<noteq> []" and "\<forall>b \<in> set blocks. row_shape b = row_shape (hd blocks)"
  shows "vstack blocks =
           Inr \<lparr>shape = sum_list (map block_height blocks) # row_shape (hd blocks),
                elems = concat (map elems blocks)\<rparr>"
proof (cases blocks)
  case Nil
  with assms(1) show ?thesis by simp
next
  case (Cons a as)
  with assms(2) have "list_all (\<lambda>b. tl (atleast_2d (shape b)) = tl (atleast_2d (shape a))) as"
    by (simp add: list_all_iff row_shape_def)
  with Cons show ?thesis
    unfolding vstack_def block_height_def row_shape_def by simp
qed

text \<open>
  C7. When the stitch sink finalizes with at least one block, the blocks having the same
  width and channels, it writes exactly one image: its height is the sum of the heights of
  the blocks and its rows are the rows of the blocks in the order of their arrival. With no
  block it reports that there is nothing to save and writes nothing.
\<close>

theorem stitch_sink_finalize:
  "(blocks \<noteq> [] \<and> (\<forall>b \<in> set blocks. row_shape b = row_shape (hd blocks)) \<longrightarrow>
      save_stitched blocks =
        ([Imwrite \<lparr>shape = sum_list (map block_height blocks) # row_shape (hd blocks),
                   elems = concat (map elems blocks)\<rparr>,
          Print SavedStitchedImage],
         Returned ()))
   \<and> save_stitched [] = ([Print NothingToSave], Returned ())"
proof (intro conjI impI)
  assume "blocks \<noteq> [] \<and> (\<forall>b \<in> set blocks. row_shape b = row_shape (hd blocks))"
  then have "blocks \<noteq> []" and "\<forall>b \<in> set blocks. row_shape b = row_shape (hd blocks)"
    by blast+
  from vstack_same_rows [OF this] \<open>blocks \<noteq> []\<close>
  show "save_stitched blocks =
        ([Imwrite \<lparr>shape = sum_list (map block_height blocks) # row_shape (hd blocks),
                   elems = concat (map elems blocks)\<rparr>,
          Print SavedStitchedImage],
         Returned ())"
    by (simp add: save_stitched_def)
next
  show "save_stitched [] = ([Print NothingToSave], Returned ())"
    by (simp add: save_stitched_def)
qed

theorem stitch_sink_finalize_witness:
  "save_stitched three_blocks =
     ([Imwrite \<lparr>shape = [6, 1, 1], elems = [1, 2, 3, 4, 5, 6]\<rparr>, Print SavedStitchedImage],
      Returned ())
   \<and> save_stitched [] = ([Print NothingToSave], Returned ())"
  using stitch_sink_finalize [of three_blocks]
  by (simp add: three_blocks_def row_shape_def block_height_def atleast_2d_def)

section \<open>The video sink\<close>

text \<open>
  C4, as the code has it. With at least one frame (and the clock having moved between the
  two readings) the video is written once, at the rate \<open>max (n / (end_time - start_time)) 1\<close>,
  where \<open>start_time\<close> is read before the loop and \<open>end_time\<close> after it; the times of arrival
  that are stored with the frames are not used. With no frame the script reports that no
  frames were captured and writes nothing. \<open>capture_and_buffer\<close> ends with this step.
\<close>

theorem video_sink_finalize:
  "(reqs \<noteq> [] \<and> end_t \<noteq> start_t \<longrightarrow>
      save_video reqs start_t end_t =
        ([DestroyAllWindows,
          VideoWrite (max (of_nat (length reqs) / (end_t - start_t)) 1)
            (shape (fst (hd reqs)) ! 1, shape (fst (hd reqs)) ! 0) (map fst reqs),
          Print (RecordingSummary (length reqs) (end_t - start_t)
                   (of_nat (length reqs) / (end_t - start_t)))],
         Returned ()))
   \<and> save_video [] start_t end_t = ([Print NoFramesCaptured], Returned ())
   \<and> fst (capture_and_buffer_finish env s) =
         [StopAcquisition, Print CaptureComplete]
         @ fst (save_video (requests s) (start_time env) (end_time env))"
  by (simp add: save_video_def Let_def hd_map)

theorem video_sink_finalize_witness:
  "save_video [(one_pixel, 0), (one_pixel, 1 / 2), (one_pixel, 1), (one_pixel, 3 / 2)] 0 (3 / 2) =
     ([DestroyAllWindows, VideoWrite (8 / 3) (1, 1) [one_pixel, one_pixel, one_pixel, one_pixel],
       Print (RecordingSummary 4 (3 / 2) (8 / 3))],
      Returned ())
   \<and> save_video [] 0 (3 / 2) = ([Print NoFramesCaptured], Returned ())"
  using video_sink_finalize
          [of "[(one_pixel, 0), (one_pixel, 1 / 2), (one_pixel, 1), (one_pixel, 3 / 2)]" "3 / 2" 0]
  by (simp add: one_pixel_def)

text \<open>
  C4 fails as it is worded. Two frames arrive at the times 1 and 2 in a recording that starts
  at 0 and ends at 4: by the time between the first and the last arrival the rate would be 2,
  but the video is written at \<open>max (2 / 4) 1 = 1\<close>.
\<close>

theorem video_sink_counterexample:
  "save_video [(one_pixel, 1), (one_pixel, 2)] 0 4 =
     ([DestroyAllWindows, VideoWrite 1 (1, 1) [one_pixel, one_pixel],
       Print (RecordingSummary 2 4 (1 / 2))],
      Returned ())
   \<and> claimed_fps [(one_pixel, 1), (one_pixel, 2)] = 2"
  by (simp add: save_video_def Let_def one_pixel_def claimed_fps_def)

section \<open>Properties that hold all along a trace\<close>

lemma always_append:
  "always step P t (A @ B) \<longleftrightarrow> always step P t A \<and> always step P (foldl step t A) B"
  by (induction A arbitrary: t) auto

lemma always_prefix:
  "always step P t T \<longleftrightarrow> (\<forall>p a. prefix (p @ [a]) T \<longrightarrow> P (foldl step t p) a)"
proof (induction T arbitrary: t)
  case Nil
  then show ?case by simp
next
  case (Cons x xs)
  show ?case
  proof
    assume l: "always step P t (x # xs)"
    show "\<forall>p a. prefix (p @ [a]) (x # xs) \<longrightarrow> P (foldl step t p) a"
    proof (intro allI impI)
      fix p a
      assume pr: "prefix (p @ [a]) (x # xs)"
      show "P (foldl step t p) a"
      proof (cases p)
        case Nil
        with pr l show ?thesis by simp
      next
        case (Cons y ys)
        with pr have "y = x" and "prefix (ys @ [a]) xs" by simp_all
        with l Cons.IH [of "step t x"] Cons show ?thesis by simp
      qed
    qed
  next
    assume r: "\<forall>p a. prefix (p @ [a]) (x # xs) \<longrightarrow> P (foldl step t p) a"
    have "P t x" using r [rule_format, of "[]" x] by simp
    moreover have "\<forall>p a. prefix (p @ [a]) xs \<longrightarrow> P (foldl step (step t x) p) a"
    proof (intro allI impI)
      fix p a
      assume "prefix (p @ [a]) xs"
      then have "prefix ((x # p) @ [a]) (x # xs)" by simp
      from r [rule_format, OF this] show "P (foldl step (step t x) p) a" by simp
    qed
    ultimately show "always step P t (x # xs)" using Cons.IH [of "step t x"] by simp
  qed
qed

lemma always_kept:
  assumes "list_all N acts" and "\<And>a. N a \<Longrightarrow> step t a = t \<and> P t a"
  shows "always step P t acts \<and> foldl step t acts = t"
  using assms(1)
proof (induction acts)
  case Nil
  then show ?case by simp
next
  case (Cons a acts)
  then show ?case using assms(2) [of a] by simp
qed

lemma while_always:
  assumes "I s t"
    and body: "\<And>s t it. I s t \<Longrightarrow> \<not> stop s \<Longrightarrow>
                 P t (CheckStop False)
                 \<and> always step P (step t (CheckStop False)) (fst (body s it))
                 \<and> (\<forall>s'. snd (body s it) = Inr s' \<longrightarrow>
                       I s' (foldl step (step t (CheckStop False)) (fst (body s it))))"
    and exit: "\<And>s t. I s t \<Longrightarrow> P t (CheckStop (stop s))"
  shows "always step P t (fst (while_not_stopped stop body s its))"
  using assms(1)
proof (induction its arbitrary: s t)
  case Nil
  then show ?case using exit [of s t] by auto
next
  case (Cons it its)
  show ?case
  proof (cases "stop s")
    case True
    then show ?thesis using exit [OF Cons.prems] by simp
  next
    case False
    note b = body [OF Cons.prems False, of it]
    show ?thesis
    proof (cases "snd (body s it)")
      case (Inl e)
      with False b show ?thesis by (simp add: while_not_stopped_fst del: while_not_stopped.simps)
    next
      case (Inr s')
      with b have "I s' (foldl step (step t (CheckStop False)) (fst (body s it)))" by simp
      from Cons.IH [OF this] False b Inr show ?thesis
        by (simp add: while_not_stopped_fst always_append del: while_not_stopped.simps)
    qed
  qed
qed

lemma while_final:
  assumes "I s t"
    and body: "\<And>s t it s'. I s t \<Longrightarrow> \<not> stop s \<Longrightarrow> snd (body s it) = Inr s' \<Longrightarrow>
                 I s' (foldl step (step t (CheckStop False)) (fst (body s it)))"
    and exit: "\<And>s t. I s t \<Longrightarrow> I s (step t (CheckStop (stop s)))"
  shows "case snd (while_not_stopped stop body s its) of
           Returned s' \<Rightarrow> I s' (foldl step t (fst (while_not_stopped stop body s its)))
         | Raised e \<Rightarrow> True
         | StillRunning \<Rightarrow> (\<exists>s'. I s' (foldl step t (fst (while_not_stopped stop body s its))))"
  using assms(1)
proof (induction its arbitrary: s t)
  case Nil
  then show ?case using exit [of s t] by auto
next
  case (Cons it its)
  show ?case
  proof (cases "stop s")
    case True
    then show ?thesis using exit [OF Cons.prems(1)] by auto
  next
    case False
    show ?thesis
    proof (cases "snd (body s it)")
      case (Inl e')
      with False show ?thesis by (simp add: while_not_stopped_snd del: while_not_stopped.simps)
    next
      case (Inr s')
      from body [OF Cons.prems(1) False Inr]
      have "I s' (foldl step (step t (CheckStop False)) (fst (body s it)))" .
      from Cons.IH [OF this]
      have ih: "case snd (while_not_stopped stop body s' its) of
                  Returned s'' \<Rightarrow>
                    I s'' (foldl step (foldl step (step t (CheckStop False)) (fst (body s it)))
                            (fst (while_not_stopped stop body s' its)))
                | Raised e \<Rightarrow> True
                | StillRunning \<Rightarrow>
                    (\<exists>s''. I s'' (foldl step (foldl step (step t (CheckStop False)) (fst (body s it)))
                            (fst (while_not_stopped stop body s' its))))" .
      have f: "fst (while_not_stopped stop body s (it # its))
                 = CheckStop False # fst (body s it) @ fst (while_not_stopped stop body s' its)"
        using False Inr by (simp add: while_not_stopped_fst del: while_not_stopped.simps)
      have g: "snd (while_not_stopped stop body s (it # its))
                 = snd (while_not_stopped stop body s' its)"
        using False Inr by (simp add: while_not_stopped_snd del: while_not_stopped.simps)
      show ?thesis
        unfolding f g using ih by (simp split: outcome.splits)
    qed
  qed
qed

section \<open>What a pass can look like\<close>

lemma handle_outputs [simp]: "list_all is_output (fst (handle_unsupported_format i f))"
  by (simp add: handle_unsupported_format_def verbose_diagnostic_def)

lemma convert_frame_outputs:
  "convert_frame p f = Inr (acts, fr, f') \<Longrightarrow> list_all is_output acts"
  by (auto simp: convert_frame_cases split: if_splits)

lemma extract_block_outputs:
  "extract_block p = Inr (acts, b) \<Longrightarrow> list_all is_output acts"
  by (auto simp: extract_block_def Let_def split: if_splits sum.splits)

lemma display_outputs:
  "display_and_save_frame p = Inr (acts, fr, w) \<Longrightarrow> list_all is_output acts"
  by (auto simp: display_and_save_frame_cases Let_def split: if_splits option.splits)

lemma capture_and_buffer_body_cases:
  obtains
    (timeout) "\<not> isRequestNrValid (wait_nr it)"
      "capture_and_buffer_body s it =
         (wait_actions it,
          Inr (s\<lparr>stop_recording := wait_for_enter (enter it \<noteq> NoEnter) (stop_recording s)\<rparr>))"
  | (raised) e where "isRequestNrValid (wait_nr it)"
      "capture_and_buffer_body s it = (wait_actions it, Inl e)"
  | (served) outs s' where "isRequestNrValid (wait_nr it)" "list_all is_output outs"
      "capture_and_buffer_body s it =
         (wait_actions it @ outs @ [Unlock (nat (wait_nr it))] @ requeue it, Inr s')"
      "stop_recording s' = wait_for_enter (enter it \<noteq> NoEnter) (stop_recording s)"
proof (cases "isRequestNrValid (wait_nr it)")
  case False
  then show ?thesis using timeout by (simp add: capture_and_buffer_body_def)
next
  case v: True
  show ?thesis
  proof (cases "isOK (delivered it)")
    case False
    with v show ?thesis
      using served [of "[Print ReceivedInvalidFrame]"]
      by (simp add: capture_and_buffer_body_def)
  next
    case ok: True
    show ?thesis
    proof (cases "convert_frame (delivered it) (warning_flag s)")
      case (Inl e)
      with v ok show ?thesis using raised by (simp add: capture_and_buffer_body_def)
    next
      case (Inr x)
      obtain acts fr f' where x: "x = (acts, fr, f')" by (cases x) auto
      have o: "list_all is_output acts" using Inr x convert_frame_outputs by blast
      show ?thesis
      proof (cases fr)
        case None
        with v ok Inr x o show ?thesis
          using served [of acts] by (simp add: capture_and_buffer_body_def)
      next
        case (Some f)
        let ?n = "length (requests s @ [(f, clock it)])"
        let ?progress = "if ?n mod 10 = 0 then [Print (CapturedFrames ?n)] else []"
        have "list_all is_output (acts @ ?progress)" using o by simp
        with v ok Inr x Some show ?thesis
          using served [of "acts @ ?progress"] by (simp add: capture_and_buffer_body_def Let_def)
      qed
    qed
  qed
qed

lemma capture_blocks_body_cases:
  obtains
    (timeout) "\<not> isRequestNrValid (wait_nr it)"
      "capture_blocks_body s it =
         (wait_actions it,
          Inr (s\<lparr>stop_acquisition := wait_for_enter (enter it \<noteq> NoEnter) (stop_acquisition s)\<rparr>))"
  | (raised) outs e where "isRequestNrValid (wait_nr it)" "list_all is_output outs"
      "capture_blocks_body s it = (wait_actions it @ outs, Inl e)"
  | (served) outs s' where "isRequestNrValid (wait_nr it)" "list_all is_output outs"
      "capture_blocks_body s it =
         (wait_actions it @ outs @ release_and_requeue (previous_request s) it, Inr s')"
      "stop_acquisition s' = wait_for_enter (enter it \<noteq> NoEnter) (stop_acquisition s)"
      "previous_request s' = Some (nat (wait_nr it))"
proof (cases "isRequestNrValid (wait_nr it)")
  case False
  then show ?thesis using timeout by (simp add: capture_blocks_body_def)
next
  case v: True
  show ?thesis
  proof (cases "isOK (delivered it)")
    case False
    with v show ?thesis
      using served [of "[]"] by (simp add: capture_blocks_body_def Let_def)
  next
    case ok: True
    show ?thesis
    proof (cases "extract_block (delivered it)")
      case (Inl e)
      with v ok show ?thesis using raised [of "[]"] by (simp add: capture_blocks_body_def Let_def)
    next
      case (Inr x)
      obtain acts blk where x: "x = (acts, blk)" by (cases x) auto
      have o: "list_all is_output acts" using Inr x extract_block_outputs by blast
      show ?thesis
      proof (cases blk)
        case None
        with v ok Inr x o show ?thesis
          using served [of acts] by (simp add: capture_blocks_body_def Let_def)
      next
        case (Some b)
        let ?blocks = "stitched_blocks s @ [b]"
        show ?thesis
        proof (cases "length ?blocks mod 20 = 0")
          case False
          with v ok Inr x o Some show ?thesis
            using served [of acts] by (simp add: capture_blocks_body_def Let_def)
        next
          case t: True
          show ?thesis
          proof (cases "vstack (drop (length ?blocks - 40) ?blocks)")
            case (Inl e)
            with v ok Inr x o Some t show ?thesis
              using raised [of acts e] by (simp add: capture_blocks_body_def Let_def)
          next
            case (Inr preview)
            have "list_all is_output (acts @ [Imshow preview, WaitKey])" using o by simp
            with v ok \<open>extract_block (delivered it) = Inr x\<close> x Some t Inr show ?thesis
              using served [of "acts @ [Imshow preview, WaitKey]"]
              by (simp add: capture_blocks_body_def Let_def)
          qed
        qed
      qed
    qed
  qed
qed

lemma capture_frames_body_cases:
  obtains
    (timeout) "\<not> isRequestNrValid (wait_nr it)"
      "capture_frames_body i (prev, flag) it =
         ([ImageRequestWaitFor (wait_nr it), Print (WaitForFailed (wait_nr it))],
          Inr (prev, flag))"
  | (raised) outs e where "isRequestNrValid (wait_nr it)" "list_all is_output outs"
      "capture_frames_body i (prev, flag) it = (ImageRequestWaitFor (wait_nr it) # outs, Inl e)"
  | (served) outs flag' where "isRequestNrValid (wait_nr it)" "list_all is_output outs"
      "capture_frames_body i (prev, flag) it =
         (ImageRequestWaitFor (wait_nr it) # outs @ release_and_requeue prev it,
          Inr (Some (nat (wait_nr it)), flag'))"
proof (cases "isRequestNrValid (wait_nr it)")
  case False
  then show ?thesis using timeout by (simp add: Let_def)
next
  case v: True
  show ?thesis
  proof (cases "isOK (delivered it)")
    case False
    with v show ?thesis using served [of "[]"] by (simp add: Let_def)
  next
    case ok: True
    let ?stats = "if i mod 100 = 0 then [Print StatisticsInfo] else []"
    show ?thesis
    proof (cases "display_and_save_frame (delivered it)")
      case (Inl e)
      with v ok show ?thesis using raised [of ?stats] by (simp add: Let_def)
    next
      case (Inr x)
      obtain acts fr w where x: "x = (acts, fr, w)" by (cases x) auto
      have o: "list_all is_output acts" using Inr x display_outputs by blast
      show ?thesis
      proof (cases w)
        case None
        have "list_all is_output (?stats @ acts)" using o by simp
        with v ok Inr x None show ?thesis
          using served [of "?stats @ acts"] by (simp add: Let_def)
      next
        case (Some info_text)
        let ?h = "handle_unsupported_format info_text flag"
        have "list_all is_output (?stats @ acts @ fst ?h)" using o by simp
        with v ok Inr x Some show ?thesis
          using served [of "?stats @ acts @ fst ?h"] by (simp add: Let_def case_prod_beta)
      qed
    qed
  qed
qed

lemma always_states:
  assumes "Q t" and "always step (\<lambda>t a. Q (step t a)) t T" and "prefix p T"
  shows "Q (foldl step t p)"
proof (cases p rule: rev_cases)
  case Nil
  with assms(1) show ?thesis by simp
next
  case (snoc q a)
  with assms(3) have "prefix (q @ [a]) T" by simp
  with assms(2) have "Q (step (foldl step t q) a)" by (simp add: always_prefix)
  with snoc show ?thesis by simp
qed

section \<open>The requests queued in the device\<close>

lemma outstanding_neutral: "is_output a \<Longrightarrow> outstanding_step n a = n"
  by (cases a) simp_all

lemma outstanding_outputs:
  assumes "list_all is_output outs" and "n \<le> c"
  shows "always outstanding_step (\<lambda>n a. outstanding_step n a \<le> c) n outs
         \<and> foldl outstanding_step n outs = n"
  using assms(1) by (rule always_kept) (simp add: outstanding_neutral assms(2))

lemma outstanding_wait:
  "foldl outstanding_step n (wait_actions it)
     = (if isRequestNrValid (wait_nr it) then n - 1 else n)"
  by (simp add: wait_actions_def)

lemma outstanding_wait_always:
  "n \<le> c \<Longrightarrow> always outstanding_step (\<lambda>n a. outstanding_step n a \<le> c) n (wait_actions it)"
  by (simp add: wait_actions_def)

lemma outstanding_requeue:
  "n + 1 \<le> c \<Longrightarrow> always outstanding_step (\<lambda>n a. outstanding_step n a \<le> c) n (requeue it)"
  "foldl outstanding_step n (requeue it) = (if resubmit_ok it then n + 1 else n)"
  by (simp_all add: requeue_def)

lemma outstanding_body:
  assumes "n \<le> c"
  shows "always outstanding_step (\<lambda>n a. outstanding_step n a \<le> c) n
           (fst (capture_and_buffer_body s it))
         \<and> foldl outstanding_step n (fst (capture_and_buffer_body s it)) \<le> c"
proof (cases rule: capture_and_buffer_body_cases [where s = s and it = it])
  case timeout
  with assms show ?thesis by (simp add: outstanding_wait outstanding_wait_always)
next
  case (raised e)
  with assms show ?thesis by (simp add: outstanding_wait outstanding_wait_always)
next
  case (served outs s')
  have "n - 1 \<le> c" using assms by simp
  from outstanding_outputs [OF served(2) this] served(1,3) assms show ?thesis
    by (simp add: always_append outstanding_wait outstanding_wait_always outstanding_requeue)
qed

lemma outstanding_loop:
  assumes "n \<le> c"
  shows "always outstanding_step (\<lambda>n a. outstanding_step n a \<le> c) n
           (fst (capture_and_buffer_loop s its))"
  unfolding capture_and_buffer_loop_def
proof (rule while_always [where I = "\<lambda>s n. n \<le> c"])
  show "n \<le> c" by (rule assms)
next
  fix s :: rv_state and t :: int and it
  assume "t \<le> c"
  then show "outstanding_step t (CheckStop False) \<le> c
     \<and> always outstanding_step (\<lambda>n a. outstanding_step n a \<le> c)
          (outstanding_step t (CheckStop False)) (fst (capture_and_buffer_body s it))
     \<and> (\<forall>s'. snd (capture_and_buffer_body s it) = Inr s' \<longrightarrow>
           foldl outstanding_step (outstanding_step t (CheckStop False))
             (fst (capture_and_buffer_body s it)) \<le> c)"
    using outstanding_body [of t c s it] by simp
next
  fix s :: rv_state and t :: int
  assume "t \<le> c"
  then show "outstanding_step t (CheckStop (stop_recording s)) \<le> c" by simp
qed

lemma prime_snd: "snd (prime rs q) = q + length (filter id rs)"
  by (induction rs arbitrary: q) (simp_all add: case_prod_beta)

lemma prime_submissions: "length (filter is_submission (fst (prime rs q))) = length rs"
  by (induction rs arbitrary: q) (simp_all add: case_prod_beta)

lemma prime_outstanding:
  "foldl outstanding_step n (fst (prime rs q)) = n + int (length (filter id rs))"
  by (induction rs arbitrary: q n) (simp_all add: case_prod_beta)

lemma prime_always:
  "n + int (length rs) \<le> c \<Longrightarrow>
     always outstanding_step (\<lambda>n a. outstanding_step n a \<le> c) n (fst (prime rs q))"
  by (induction rs arbitrary: q n) (simp_all add: case_prod_beta)

lemma filter_id_le: "int (length (filter id rs)) \<le> int (length rs)"
  by simp

lemma save_video_outputs [simp]: "list_all is_output (fst (save_video reqs a b))"
  by (simp add: save_video_def Let_def)

lemma save_stitched_outputs [simp]: "list_all is_output (fst (save_stitched blocks))"
  by (simp add: save_stitched_def split: sum.splits)

lemma outstanding_run:
  "always outstanding_step (\<lambda>n a. outstanding_step n a \<le> int MAX_REQUESTS) 0
     (fst (capture_and_buffer env))"
proof -
  let ?c = "int MAX_REQUESTS"
  let ?P = "\<lambda>n a. outstanding_step n a \<le> ?c"
  let ?rs = "map (submit_ok env) [0..<MAX_REQUESTS]"
  let ?k = "int (length (filter id ?rs))"
  have k: "?k \<le> ?c" using filter_id_le [of ?rs] by simp
  have p: "always outstanding_step ?P 0 (fst (prime ?rs 0))"
    by (rule prime_always) simp
  have s: "always outstanding_step ?P 0 (fst (capture_and_buffer_setup env))
           \<and> foldl outstanding_step 0 (fst (capture_and_buffer_setup env)) = ?k"
    using p k by (simp add: always_append prime_outstanding MAX_REQUESTS_def)
  let ?loop = "capture_and_buffer_loop (snd (capture_and_buffer_setup env)) (passes env)"
  have l: "always outstanding_step ?P ?k (fst ?loop)"
    using k by (rule outstanding_loop)
  have "foldl outstanding_step ?k (fst ?loop) \<le> ?c"
    using always_states [where Q = "\<lambda>n. n \<le> ?c", OF k l prefix_order.order_refl] .
  then have f: "always outstanding_step ?P (foldl outstanding_step ?k (fst ?loop))
                  (fst (capture_and_buffer_finish env s'))" for s'
    using outstanding_outputs [of "fst (capture_and_buffer_finish env s')"] by simp
  show ?thesis
    using s l f by (simp add: capture_and_buffer_trace always_append split: outcome.splits)
qed

section \<open>One resubmission for each completion\<close>

lemma owed_neutral: "is_output a \<Longrightarrow> owed_step n a = n"
  by (cases a) simp_all

lemma owed_outputs:
  assumes "list_all is_output outs" and "0 \<le> n \<and> n \<le> 1"
  shows "always owed_step (\<lambda>n a. 0 \<le> owed_step n a \<and> owed_step n a \<le> 1) n outs
         \<and> foldl owed_step n outs = n"
  using assms(1) by (rule always_kept) (simp add: owed_neutral assms(2))

lemma owed_body:
  "always owed_step (\<lambda>n a. 0 \<le> owed_step n a \<and> owed_step n a \<le> 1) 0
           (fst (capture_and_buffer_body s it))
   \<and> (\<forall>s'. snd (capture_and_buffer_body s it) = Inr s' \<longrightarrow>
          foldl owed_step 0 (fst (capture_and_buffer_body s it)) = 0)"
proof (cases rule: capture_and_buffer_body_cases [where s = s and it = it])
  case timeout
  then show ?thesis by (simp add: wait_actions_def)
next
  case (raised e)
  then show ?thesis by (simp add: wait_actions_def)
next
  case (served outs s')
  have "(0::int) \<le> 1 \<and> (1::int) \<le> 1" by simp
  from owed_outputs [OF served(2) this] served(1,3) show ?thesis
    by (simp add: always_append wait_actions_def requeue_def)
qed

lemma owed_loop:
  "always owed_step (\<lambda>n a. 0 \<le> owed_step n a \<and> owed_step n a \<le> 1) 0
     (fst (capture_and_buffer_loop s its))"
  unfolding capture_and_buffer_loop_def
proof (rule while_always [where I = "\<lambda>s n. n = 0"])
  show "(0::int) = 0" by simp
next
  fix s :: rv_state and t :: int and it
  assume "t = 0"
  then show "(0 \<le> owed_step t (CheckStop False) \<and> owed_step t (CheckStop False) \<le> 1)
     \<and> always owed_step (\<lambda>n a. 0 \<le> owed_step n a \<and> owed_step n a \<le> 1)
          (owed_step t (CheckStop False)) (fst (capture_and_buffer_body s it))
     \<and> (\<forall>s'. snd (capture_and_buffer_body s it) = Inr s' \<longrightarrow>
           foldl owed_step (owed_step t (CheckStop False))
             (fst (capture_and_buffer_body s it)) = 0)"
    using owed_body [of s it] by simp
next
  fix s :: rv_state and t :: int
  assume "t = 0"
  then show "0 \<le> owed_step t (CheckStop (stop_recording s))
             \<and> owed_step t (CheckStop (stop_recording s)) \<le> 1" by simp
qed

section \<open>A failed resubmission\<close>

lemma body_whatever_resubmit:
  "snd (capture_and_buffer_body s (it\<lparr>resubmit_ok := b\<rparr>)) = snd (capture_and_buffer_body s it)"
  by (simp add: capture_and_buffer_body_def Let_def split: sum.splits option.splits)

lemma loop_whatever_resubmit:
  "snd (capture_and_buffer_loop s (map (resubmit_ok_update (\<lambda>_. False)) its))
     = snd (capture_and_buffer_loop s its)"
  unfolding capture_and_buffer_loop_def
proof (induction its arbitrary: s)
  case Nil
  then show ?case by simp
next
  case (Cons it its)
  show ?case
    using Cons.IH body_whatever_resubmit [where s = s and it = it and b = False]
    by (simp add: while_not_stopped_snd del: while_not_stopped.simps split: sum.splits)
qed

lemma failed_resubmit_reported:
  assumes "isRequestNrValid (wait_nr it)" and "\<not> resubmit_ok it"
    and "snd (capture_and_buffer_body s it) = Inr s'"
  shows "last (fst (capture_and_buffer_body s it)) = Print CouldNotRequeue"
proof (cases rule: capture_and_buffer_body_cases [where s = s and it = it])
  case timeout
  with assms show ?thesis by simp
next
  case (raised e)
  with assms show ?thesis by simp
next
  case (served outs s'')
  with assms(2) show ?thesis by (simp add: requeue_def)
qed

lemma count_below: "length (filter (\<lambda>i. i < k) [0..<n]) = min k n"
  by (induction n) auto

lemma setup_outstanding:
  "outstanding (fst (capture_and_buffer_setup env))
     = int (length (filter id (map (submit_ok env) [0..<MAX_REQUESTS])))"
  by (simp add: outstanding_def prime_outstanding)

lemma setup_submissions:
  "length (filter is_submission (fst (capture_and_buffer_setup env))) = MAX_REQUESTS"
  by (simp add: prime_submissions)

text \<open>
  C3. In a run of \<open>capture_and_buffer\<close> the number of requests queued in the device never
  exceeds \<open>MAX_REQUESTS\<close>, at any point of the priming and of the loop. The priming calls
  \<open>imageRequestSingle\<close> exactly \<open>MAX_REQUESTS\<close> times and goes on after a failure (it returns
  its count and has no exception to raise); with a device that takes \<open>k\<close> requests and
  refuses the rest, \<open>k\<close> requests are queued and \<open>k\<close> is the number reported. In the loop
  each completion, processed or rejected, is followed by one \<open>imageRequestSingle\<close> before the
  next completion and never by more; a failure of that call is printed and changes neither
  the state of the pass nor how the loop ends.
\<close>

theorem queue_depth_is_never_exceeded:
  "(\<forall>p. prefix p (fst (capture_and_buffer env)) \<longrightarrow> outstanding p \<le> int MAX_REQUESTS)
   \<and> length (filter is_submission (fst (capture_and_buffer_setup env))) = MAX_REQUESTS
   \<and> (k \<le> MAX_REQUESTS \<and> submit_ok env = (\<lambda>i. i < k) \<longrightarrow>
        outstanding (fst (capture_and_buffer_setup env)) = int k
        \<and> Print (QueuedInitialRequests k) \<in> set (fst (capture_and_buffer_setup env)))
   \<and> (\<forall>p. prefix p (fst (capture_and_buffer_loop s its)) \<longrightarrow> 0 \<le> owed p \<and> owed p \<le> 1)
   \<and> snd (capture_and_buffer_loop s (map (resubmit_ok_update (\<lambda>_. False)) its))
       = snd (capture_and_buffer_loop s its)
   \<and> (isRequestNrValid (wait_nr it) \<and> \<not> resubmit_ok it
        \<and> snd (capture_and_buffer_body s it) = Inr s' \<longrightarrow>
        last (fst (capture_and_buffer_body s it)) = Print CouldNotRequeue)"
proof (intro conjI allI impI)
  fix p
  assume "prefix p (fst (capture_and_buffer env))"
  with always_states [where Q = "\<lambda>n. n \<le> int MAX_REQUESTS", OF _ outstanding_run]
  show "outstanding p \<le> int MAX_REQUESTS"
    unfolding outstanding_def by simp
next
  show "length (filter is_submission (fst (capture_and_buffer_setup env))) = MAX_REQUESTS"
    by (rule setup_submissions)
next
  assume a: "k \<le> MAX_REQUESTS \<and> submit_ok env = (\<lambda>i. i < k)"
  then have c: "length (filter id (map (submit_ok env) [0..<MAX_REQUESTS])) = k"
    by (simp add: count_below)
  then show "outstanding (fst (capture_and_buffer_setup env)) = int k"
    by (simp only: setup_outstanding)
  show "Print (QueuedInitialRequests k) \<in> set (fst (capture_and_buffer_setup env))"
    using c by (simp add: prime_snd)
next
  fix p
  assume "prefix p (fst (capture_and_buffer_loop s its))"
  with always_states [where Q = "\<lambda>n. 0 \<le> n \<and> n \<le> 1" and t = "0::int", OF _ owed_loop]
  show "0 \<le> owed p" and "owed p \<le> 1"
    unfolding owed_def by simp_all
next
  show "snd (capture_and_buffer_loop s (map (resubmit_ok_update (\<lambda>_. False)) its))
          = snd (capture_and_buffer_loop s its)"
    by (rule loop_whatever_resubmit)
next
  assume "isRequestNrValid (wait_nr it) \<and> \<not> resubmit_ok it
            \<and> snd (capture_and_buffer_body s it) = Inr s'"
  then show "last (fst (capture_and_buffer_body s it)) = Print CouldNotRequeue"
    using failed_resubmit_reported by blast
qed

theorem queue_depth_is_never_exceeded_witness:
  "outstanding (fst (capture_and_buffer flaky_device)) \<le> 20
   \<and> outstanding (fst (capture_and_buffer_setup flaky_device)) = 3
   \<and> Print (QueuedInitialRequests 3) \<in> set (fst (capture_and_buffer_setup flaky_device))
   \<and> snd (capture_and_buffer_body recording_start ((pass_of 0 mono8_frame)\<lparr>resubmit_ok := False\<rparr>))
       = Inr (recording_start\<lparr>warning_flag := True\<rparr>)
   \<and> last (fst (capture_and_buffer_body recording_start
                   ((pass_of 0 mono8_frame)\<lparr>resubmit_ok := False\<rparr>)))
       = Print CouldNotRequeue"
proof -
  let ?it = "(pass_of 0 mono8_frame)\<lparr>resubmit_ok := False\<rparr>"
  have b: "snd (capture_and_buffer_body recording_start ?it)
             = Inr (recording_start\<lparr>warning_flag := True\<rparr>)"
    by (simp add: capture_and_buffer_body_def pass_of_def mono8_frame_def isRequestNrValid_def
          convert_frame_cases handle_unsupported_format_def recording_start_def wait_for_enter_def
          Let_def)
  have v: "isRequestNrValid (wait_nr ?it) \<and> \<not> resubmit_ok ?it"
    by (simp add: pass_of_def isRequestNrValid_def)
  have k: "3 \<le> MAX_REQUESTS \<and> submit_ok flaky_device = (\<lambda>i. i < 3)"
    by (simp add: MAX_REQUESTS_def flaky_device_def)
  note t = queue_depth_is_never_exceeded
             [where env = flaky_device and k = 3 and s = recording_start and it = ?it
                and s' = "recording_start\<lparr>warning_flag := True\<rparr>"]
  from t have "outstanding (fst (capture_and_buffer flaky_device)) \<le> int MAX_REQUESTS"
    by blast
  moreover from t k have "outstanding (fst (capture_and_buffer_setup flaky_device)) = 3
    \<and> Print (QueuedInitialRequests 3) \<in> set (fst (capture_and_buffer_setup flaky_device))"
    by simp
  moreover from t v b have "last (fst (capture_and_buffer_body recording_start ?it))
       = Print CouldNotRequeue"
    by blast
  ultimately show ?thesis using b by (simp add: MAX_REQUESTS_def)
qed

section \<open>The order of releases\<close>

lemma always_mono:
  "always step P t T \<Longrightarrow> (\<And>t a. P t a \<Longrightarrow> P' t a) \<Longrightarrow> always step P' t T"
  by (induction T arbitrary: t) auto

lemma hold_fold:
  "foldl hold_step (h, d) p = (foldl held_step h p, foldl delivered_step d p)"
  by (induction p arbitrary: h d) simp_all

lemma output_keeps: "is_output a \<Longrightarrow> keeps_requests a"
  by (cases a) simp_all

lemma outputs_keep: "list_all is_output acts \<Longrightarrow> list_all keeps_requests acts"
  by (induction acts) (simp_all add: output_keeps)

lemma hold_kept: "keeps_requests a \<Longrightarrow> hold_step t a = t"
  by (cases a; cases t) simp_all

lemma held_kept: "keeps_requests a \<Longrightarrow> held_step h a = h"
  by (cases a) simp_all

lemma deferred_kept:
  assumes "list_all keeps_requests acts" and "settled t"
  shows "always hold_step deferred_release t acts \<and> foldl hold_step t acts = t"
  using assms(1)
proof (rule always_kept)
  fix a
  assume "keeps_requests a"
  then show "hold_step t a = t \<and> deferred_release t a"
    using assms(2) by (cases a) (auto simp: hold_kept deferred_release_def settled_def)
qed

lemma deferred_pass:
  assumes "isRequestNrValid nr" and "list_all keeps_requests outs"
  shows "always hold_step deferred_release (between_passes prev)
           (ImageRequestWaitFor nr # outs @ release_and_requeue prev it)
         \<and> foldl hold_step (between_passes prev)
             (ImageRequestWaitFor nr # outs @ release_and_requeue prev it)
             = between_passes (Some (nat nr))"
proof -
  let ?t = "hold_step (between_passes prev) (ImageRequestWaitFor nr)"
  have t: "?t = ((case prev of None \<Rightarrow> [] | Some k \<Rightarrow> [k]) @ [nat nr], Some (nat nr))"
    using assms(1) by (simp add: between_passes_def)
  then have s: "settled ?t" by (simp add: settled_def split: option.splits)
  have w: "deferred_release (between_passes prev) (ImageRequestWaitFor nr)"
    using assms(1) by (simp add: deferred_release_def between_passes_def split: option.splits)
  from deferred_kept [OF assms(2) s]
  have o: "always hold_step deferred_release ?t outs" and f: "foldl hold_step ?t outs = ?t"
    by simp_all
  have r: "always hold_step deferred_release ?t (release_and_requeue prev it)
           \<and> foldl hold_step ?t (release_and_requeue prev it) = between_passes (Some (nat nr))"
    unfolding t
    by (simp add: release_and_requeue_def deferred_release_def between_passes_def
          split: option.splits)
  show ?thesis using w o f r by (simp add: always_append)
qed

lemma deferred_raise:
  assumes "isRequestNrValid nr" and "list_all keeps_requests outs"
  shows "always hold_step deferred_release (between_passes prev) (ImageRequestWaitFor nr # outs)"
proof -
  let ?t = "hold_step (between_passes prev) (ImageRequestWaitFor nr)"
  have t: "?t = ((case prev of None \<Rightarrow> [] | Some k \<Rightarrow> [k]) @ [nat nr], Some (nat nr))"
    using assms(1) by (simp add: between_passes_def)
  then have s: "settled ?t" by (simp add: settled_def split: option.splits)
  have w: "deferred_release (between_passes prev) (ImageRequestWaitFor nr)"
    using assms(1) by (simp add: deferred_release_def between_passes_def split: option.splits)
  from deferred_kept [OF assms(2) s] w show ?thesis by simp
qed

lemma settled_between: "settled (between_passes prev)"
  by (simp add: settled_def between_passes_def split: option.splits)

lemma frames_loop_deferred:
  "always hold_step deferred_release (between_passes prev)
     (fst (capture_frames_loop i (prev, flag) its))
   \<and> settled (foldl hold_step (between_passes prev)
                (fst (capture_frames_loop i (prev, flag) its)))"
proof (induction its arbitrary: i prev flag)
  case Nil
  then show ?case by (simp add: settled_between)
next
  case (Cons it its)
  show ?case
  proof (cases rule: capture_frames_body_cases [where i = i and prev = prev and flag = flag and it = it])
    case timeout
    have k: "hold_step (between_passes prev) (ImageRequestWaitFor (wait_nr it)) = between_passes prev"
      using timeout(1) by (cases "between_passes prev") simp
    have d: "deferred_release (between_passes prev) (ImageRequestWaitFor (wait_nr it))"
      using timeout(1) settled_between [of prev]
      by (cases "between_passes prev")
         (auto simp: deferred_release_def settled_def between_passes_def split: option.splits)
    have p: "deferred_release (between_passes prev) (Print (WaitForFailed (wait_nr it)))"
      using settled_between [of prev]
      by (cases "between_passes prev") (auto simp: deferred_release_def settled_def)
    have p': "hold_step (between_passes prev) (Print (WaitForFailed (wait_nr it))) = between_passes prev"
      by (cases "between_passes prev") simp
    show ?thesis
      using timeout(2) Cons.IH [where i = "Suc i" and prev = prev and flag = flag] k d p p'
      by (simp add: case_prod_beta always_append)
  next
    case (raised outs e)
    from deferred_raise [OF raised(1) outputs_keep [OF raised(2)], of prev]
    have a: "always hold_step deferred_release (between_passes prev)
               (ImageRequestWaitFor (wait_nr it) # outs)" .
    let ?t = "hold_step (between_passes prev) (ImageRequestWaitFor (wait_nr it))"
    have t: "?t = ((case prev of None \<Rightarrow> [] | Some k \<Rightarrow> [k]) @ [nat (wait_nr it)], Some (nat (wait_nr it)))"
      using raised(1) by (simp add: between_passes_def)
    then have s: "settled ?t" by (simp add: settled_def split: option.splits)
    from deferred_kept [OF outputs_keep [OF raised(2)] s]
    have "foldl hold_step ?t outs = ?t" by simp
    with s have "settled (foldl hold_step (between_passes prev) (ImageRequestWaitFor (wait_nr it) # outs))"
      by simp
    with a raised(3) show ?thesis by simp
  next
    case (served outs flag')
    from deferred_pass [OF served(1) outputs_keep [OF served(2)], of prev it] served(3)
      Cons.IH [where i = "Suc i" and prev = "Some (nat (wait_nr it))" and flag = flag']
    show ?thesis by (simp add: case_prod_beta always_append)
  qed
qed

lemma deferred_release_kept:
  "keeps_requests a \<Longrightarrow> settled t \<Longrightarrow> deferred_release t a \<and> hold_step t a = t"
  by (cases a) (auto simp: hold_kept deferred_release_def settled_def)

lemma deferred_wait_timeout:
  assumes "\<not> isRequestNrValid (wait_nr it)"
  shows "always hold_step deferred_release (between_passes prev) (wait_actions it)
         \<and> foldl hold_step (between_passes prev) (wait_actions it) = between_passes prev"
proof -
  have k: "hold_step (between_passes prev) (ImageRequestWaitFor (wait_nr it)) = between_passes prev"
    using assms by (cases "between_passes prev") simp
  have d: "deferred_release (between_passes prev) (ImageRequestWaitFor (wait_nr it))"
    using assms
    by (auto simp: deferred_release_def between_passes_def split: option.splits)
  have s: "deferred_release (between_passes prev) SetStop
           \<and> hold_step (between_passes prev) SetStop = between_passes prev"
    by (rule deferred_release_kept) (simp_all add: settled_between)
  show ?thesis using k d s by (simp add: wait_actions_def)
qed

lemma deferred_wait_pass:
  assumes "isRequestNrValid (wait_nr it)" and "list_all keeps_requests outs"
  shows "always hold_step deferred_release (between_passes prev)
           (wait_actions it @ outs @ release_and_requeue prev it)
         \<and> foldl hold_step (between_passes prev)
             (wait_actions it @ outs @ release_and_requeue prev it)
             = between_passes (Some (nat (wait_nr it)))"
proof -
  have s: "deferred_release (between_passes prev) SetStop
           \<and> hold_step (between_passes prev) SetStop = between_passes prev"
    by (rule deferred_release_kept) (simp_all add: settled_between)
  have "list_all keeps_requests (SetStop # outs)" using assms(2) by simp
  from deferred_pass [OF assms(1) this, of prev it] deferred_pass [OF assms, of prev it] s
  show ?thesis by (cases "enter it") (simp_all add: wait_actions_def)
qed

lemma deferred_wait_raise:
  assumes "isRequestNrValid (wait_nr it)" and "list_all keeps_requests outs"
  shows "always hold_step deferred_release (between_passes prev) (wait_actions it @ outs)"
proof -
  have s: "deferred_release (between_passes prev) SetStop
           \<and> hold_step (between_passes prev) SetStop = between_passes prev"
    by (rule deferred_release_kept) (simp_all add: settled_between)
  have "list_all keeps_requests (SetStop # outs)" using assms(2) by simp
  from deferred_raise [OF assms(1) this, of prev] deferred_raise [OF assms, of prev] s
  show ?thesis by (cases "enter it") (simp_all add: wait_actions_def)
qed

lemma blocks_loop_deferred:
  "always hold_step deferred_release (between_passes (previous_request s))
     (fst (capture_blocks_loop s its))"
  unfolding capture_blocks_loop_def
proof (rule while_always [where I = "\<lambda>s t. t = between_passes (previous_request s)"])
  show "between_passes (previous_request s) = between_passes (previous_request s)" by simp
next
  fix s :: bs_state and t :: "nat list \<times> nat option" and it
  assume t: "t = between_passes (previous_request s)"
  have c: "deferred_release t (CheckStop False) \<and> hold_step t (CheckStop False) = t"
    unfolding t by (rule deferred_release_kept) (simp_all add: settled_between)
  have "always hold_step deferred_release t (fst (capture_blocks_body s it))
        \<and> (\<forall>s'. snd (capture_blocks_body s it) = Inr s' \<longrightarrow>
              foldl hold_step t (fst (capture_blocks_body s it))
                = between_passes (previous_request s'))"
  proof (cases rule: capture_blocks_body_cases [where s = s and it = it])
    case timeout
    with deferred_wait_timeout [OF timeout(1), of "previous_request s"] show ?thesis
      unfolding t by simp
  next
    case (raised outs e)
    with deferred_wait_raise [OF raised(1) outputs_keep [OF raised(2)], of "previous_request s"]
    show ?thesis unfolding t by simp
  next
    case (served outs s')
    with deferred_wait_pass [OF served(1) outputs_keep [OF served(2)], of "previous_request s"]
    show ?thesis unfolding t by simp
  qed
  with c show "deferred_release t (CheckStop False)
     \<and> always hold_step deferred_release (hold_step t (CheckStop False))
          (fst (capture_blocks_body s it))
     \<and> (\<forall>s'. snd (capture_blocks_body s it) = Inr s' \<longrightarrow>
           foldl hold_step (hold_step t (CheckStop False)) (fst (capture_blocks_body s it))
             = between_passes (previous_request s'))"
    by simp
next
  fix s :: bs_state and t :: "nat list \<times> nat option"
  assume "t = between_passes (previous_request s)"
  then show "deferred_release t (CheckStop (stop_acquisition s))"
    using deferred_release_kept [of "CheckStop (stop_acquisition s)" t]
    by (simp add: settled_between)
qed

lemma deferred_settles: "deferred_release t a \<Longrightarrow> settled (hold_step t a)"
  by (simp add: deferred_release_def settled_def)

lemma deferred_run:
  assumes "list_all keeps_requests before" and "list_all keeps_requests after"
    and "always hold_step deferred_release ([], None) looped"
  shows "always hold_step deferred_release ([], None) (before @ looped @ after)"
proof -
  have s0: "settled ([], None)" by (simp add: settled_def)
  from deferred_kept [OF assms(1) s0]
  have b: "always hold_step deferred_release ([], None) before"
    and fb: "foldl hold_step ([], None) before = ([], None)" by simp_all
  have "always hold_step (\<lambda>t a. settled (hold_step t a)) ([], None) looped"
    using assms(3) by (rule always_mono) (rule deferred_settles)
  from always_states [where Q = settled, OF s0 this prefix_order.order_refl]
  have "settled (foldl hold_step ([], None) looped)" .
  from deferred_kept [OF assms(2) this]
  have "always hold_step deferred_release (foldl hold_step ([], None) looped) after" by simp
  with b fb assms(3) show ?thesis by (simp add: always_append)
qed

lemma queue_all_keeps [simp]: "list_all keeps_requests (queue_all n)"
  by (induction n) simp_all

lemma frames_run_deferred:
  "always hold_step deferred_release ([], None) (fst (capture_frames capacity its))"
proof -
  have l: "always hold_step deferred_release ([], None)
             (fst (capture_frames_loop 0 (None, False) its))"
    using frames_loop_deferred [of None 0 False its] by (simp add: between_passes_def)
  have "fst (capture_frames capacity its)
          = (queue_all capacity @ [StartAcquisition])
            @ fst (capture_frames_loop 0 (None, False) its)
            @ (case snd (capture_frames_loop 0 (None, False) its) of
                 Returned s \<Rightarrow> [StopAcquisition, DestroyAllWindows]
               | Raised e \<Rightarrow> [] | StillRunning \<Rightarrow> [])"
    by (simp add: capture_frames_trace)
  moreover have "list_all keeps_requests (queue_all capacity @ [StartAcquisition])" by simp
  moreover have "list_all keeps_requests
                   (case snd (capture_frames_loop 0 (None, False) its) of
                      Returned s \<Rightarrow> [StopAcquisition, DestroyAllWindows]
                    | Raised e \<Rightarrow> [] | StillRunning \<Rightarrow> [])"
    by (simp split: outcome.splits)
  ultimately show ?thesis using deferred_run l by metis
qed

lemma blocks_run_deferred:
  "always hold_step deferred_release ([], None) (fst (capture_blocks flag env))"
proof -
  let ?loop = "capture_blocks_loop (snd (capture_blocks_setup flag env)) (passes env)"
  have l: "always hold_step deferred_release ([], None) (fst ?loop)"
    using blocks_loop_deferred [of "snd (capture_blocks_setup flag env)" "passes env"]
    by (simp add: between_passes_def)
  have b: "list_all keeps_requests (fst (capture_blocks_setup flag env))"
    by (simp add: list_all_iff)
  have "list_all keeps_requests
          (case snd ?loop of
             Returned s \<Rightarrow> fst (capture_blocks_finish s) | Raised e \<Rightarrow> [] | StillRunning \<Rightarrow> [])"
    using outputs_keep [OF save_stitched_outputs] by (simp split: outcome.splits)
  from deferred_run [OF b this l] show ?thesis by (simp add: capture_blocks_trace)
qed

section \<open>Release within the pass\<close>

lemma prompt_kept:
  assumes "list_all keeps_requests acts" and "length h \<le> 1"
  shows "always held_step prompt_release h acts \<and> foldl held_step h acts = h"
  using assms(1)
proof (rule always_kept)
  fix a
  assume "keeps_requests a"
  then show "held_step h a = h \<and> prompt_release h a"
    using assms(2) by (cases a) (auto simp: prompt_release_def)
qed

lemma prompt_wait:
  "always held_step prompt_release [] (wait_actions it)
   \<and> foldl held_step [] (wait_actions it)
       = (if isRequestNrValid (wait_nr it) then [nat (wait_nr it)] else [])"
  by (cases "enter it") (simp_all add: wait_actions_def prompt_release_def)

lemma requeue_keeps [simp]: "list_all keeps_requests (requeue it)"
  by (simp add: requeue_def)

lemma prompt_body:
  "always held_step prompt_release [] (fst (capture_and_buffer_body s it))
   \<and> (\<forall>s'. snd (capture_and_buffer_body s it) = Inr s' \<longrightarrow>
         foldl held_step [] (fst (capture_and_buffer_body s it)) = [])"
proof (cases rule: capture_and_buffer_body_cases [where s = s and it = it])
  case timeout
  with prompt_wait [of it] show ?thesis by simp
next
  case (raised e)
  with prompt_wait [of it] show ?thesis by simp
next
  case (served outs s')
  let ?h = "[nat (wait_nr it)]"
  have o: "always held_step prompt_release ?h outs \<and> foldl held_step ?h outs = ?h"
    using outputs_keep [OF served(2)] by (rule prompt_kept) simp
  have r: "always held_step prompt_release [] (requeue it) \<and> foldl held_step [] (requeue it) = []"
    by (rule prompt_kept) simp_all
  from prompt_wait [of it] served(1,3) o r show ?thesis
    by (simp add: always_append prompt_release_def)
qed

lemma prompt_loop:
  "always held_step prompt_release [] (fst (capture_and_buffer_loop s its))"
  unfolding capture_and_buffer_loop_def
proof (rule while_always [where I = "\<lambda>s h. h = []"])
  show "[] = ([] :: nat list)" by simp
next
  fix s :: rv_state and t :: "nat list" and it
  assume "t = []"
  then show "prompt_release t (CheckStop False)
     \<and> always held_step prompt_release (held_step t (CheckStop False))
          (fst (capture_and_buffer_body s it))
     \<and> (\<forall>s'. snd (capture_and_buffer_body s it) = Inr s' \<longrightarrow>
           foldl held_step (held_step t (CheckStop False)) (fst (capture_and_buffer_body s it))
             = [])"
    using prompt_body [of s it] by (simp add: prompt_release_def)
next
  fix s :: rv_state and t :: "nat list"
  assume "t = []"
  then show "prompt_release t (CheckStop (stop_recording s))" by (simp add: prompt_release_def)
qed

lemma prompt_loop_end:
  "snd (capture_and_buffer_loop s its) = Returned s'
     \<Longrightarrow> foldl held_step [] (fst (capture_and_buffer_loop s its)) = []"
  using while_final [where I = "\<lambda>s h. h = []" and step = held_step and t = "[]"
                       and stop = stop_recording and body = capture_and_buffer_body
                       and s = s and its = its]
        prompt_body
  unfolding capture_and_buffer_loop_def by (auto split: outcome.splits)

lemma prime_keeps [simp]: "list_all keeps_requests (fst (prime rs q))"
  by (induction rs arbitrary: q) (simp_all add: case_prod_beta)

lemma recording_run_prompt:
  "always held_step prompt_release [] (fst (capture_and_buffer env))
   \<and> (snd (capture_and_buffer env) = Returned () \<longrightarrow>
        foldl held_step [] (fst (capture_and_buffer env)) = [])"
proof -
  let ?loop = "capture_and_buffer_loop (snd (capture_and_buffer_setup env)) (passes env)"
  have b: "always held_step prompt_release [] (fst (capture_and_buffer_setup env))
           \<and> foldl held_step [] (fst (capture_and_buffer_setup env)) = []"
    by (rule prompt_kept) simp_all
  have l: "always held_step prompt_release [] (fst ?loop)" by (rule prompt_loop)
  have "always held_step (\<lambda>h a. length (held_step h a) \<le> 1) [] (fst ?loop)"
    using l by (rule always_mono) (simp add: prompt_release_def)
  from always_states [where Q = "\<lambda>h. length h \<le> 1", OF _ this prefix_order.order_refl]
  have n: "length (foldl held_step [] (fst ?loop)) \<le> 1" by simp
  have a: "always held_step prompt_release (foldl held_step [] (fst ?loop))
             (fst (capture_and_buffer_finish env s'))
           \<and> foldl held_step (foldl held_step [] (fst ?loop))
               (fst (capture_and_buffer_finish env s'))
               = foldl held_step [] (fst ?loop)" for s'
    using _ n by (rule prompt_kept) (simp add: outputs_keep)
  show ?thesis
  proof (cases "snd ?loop")
    case (Returned s')
    with prompt_loop_end [OF Returned] b l a [of s'] show ?thesis
      by (simp add: capture_and_buffer_trace always_append)
  next
    case (Raised e)
    with b l show ?thesis
      by (simp add: capture_and_buffer_trace capture_and_buffer_outcome always_append)
  next
    case StillRunning
    with b l show ?thesis
      by (simp add: capture_and_buffer_trace capture_and_buffer_outcome always_append)
  qed
qed

text \<open>
  C2, as the code has it. \<open>capture_frames\<close> and \<open>capture_blocks\<close> keep the request of a
  successful wait locked until a later wait has succeeded (at every point the request
  delivered last is among the locked ones): they hold at most two completed requests at any
  time, and at most one whenever a wait begins. \<open>capture_and_buffer\<close> unlocks each request
  in the pass that received it: it holds at most one at any time, none whenever a wait
  begins, and none when it returns.
\<close>

theorem release_ordering:
  "(T = fst (capture_frames capacity its) \<or> T = fst (capture_blocks flag env) \<longrightarrow>
      (\<forall>p. prefix p T \<longrightarrow>
         length (held_after p) \<le> 2
         \<and> (\<forall>k. last_delivered p = Some k \<longrightarrow> k \<in> set (held_after p)))
      \<and> (\<forall>p nr. prefix (p @ [ImageRequestWaitFor nr]) T \<longrightarrow> length (held_after p) \<le> 1))
   \<and> (\<forall>p. prefix p (fst (capture_and_buffer env)) \<longrightarrow> length (held_after p) \<le> 1)
   \<and> (\<forall>p nr. prefix (p @ [ImageRequestWaitFor nr]) (fst (capture_and_buffer env)) \<longrightarrow>
         held_after p = [])
   \<and> (snd (capture_and_buffer env) = Returned () \<longrightarrow>
         held_after (fst (capture_and_buffer env)) = [])"
proof (intro conjI impI allI)
  assume "T = fst (capture_frames capacity its) \<or> T = fst (capture_blocks flag env)"
  then have d: "always hold_step deferred_release ([], None) T"
    using frames_run_deferred blocks_run_deferred by blast
  have s0: "settled ([], None)" by (simp add: settled_def)
  have d': "always hold_step (\<lambda>t a. settled (hold_step t a)) ([], None) T"
    using d by (rule always_mono) (rule deferred_settles)
  {
    fix p
    assume "prefix p T"
    from always_states [where Q = settled, OF s0 d' this]
    have "settled (held_after p, last_delivered p)"
      by (simp add: hold_fold held_after_def last_delivered_def)
    then show "length (held_after p) \<le> 2"
      and "\<And>k. last_delivered p = Some k \<Longrightarrow> k \<in> set (held_after p)"
      by (simp_all add: settled_def)
  }
  {
    fix p nr
    assume "prefix (p @ [ImageRequestWaitFor nr]) T"
    with d have "deferred_release (foldl hold_step ([], None) p) (ImageRequestWaitFor nr)"
      by (simp add: always_prefix)
    then show "length (held_after p) \<le> 1"
      by (simp add: deferred_release_def hold_fold held_after_def)
  }
next
  fix p
  assume p: "prefix p (fst (capture_and_buffer env))"
  have "always held_step (\<lambda>h a. length (held_step h a) \<le> 1) [] (fst (capture_and_buffer env))"
    using recording_run_prompt [of env] always_mono [where P = prompt_release]
    by (simp add: prompt_release_def)
  from always_states [where Q = "\<lambda>h. length h \<le> 1", OF _ this p]
  show "length (held_after p) \<le> 1" by (simp add: held_after_def)
next
  fix p nr
  assume "prefix (p @ [ImageRequestWaitFor nr]) (fst (capture_and_buffer env))"
  with recording_run_prompt [of env]
  have "prompt_release (foldl held_step [] p) (ImageRequestWaitFor nr)"
    by (simp add: always_prefix)
  then show "held_after p = []" by (simp add: prompt_release_def held_after_def)
next
  assume "snd (capture_and_buffer env) = Returned ()"
  with recording_run_prompt [of env] show "held_after (fst (capture_and_buffer env)) = []"
    by (simp add: held_after_def)
qed

lemma one_rejected_pass:
  "capture_frames_body 0 (None, False) (pass_of 7 mono8_frame)
     = (ImageRequestWaitFor 7 # Print StatisticsInfo
          # verbose_diagnostic (ImageInfo 4 2 2 1 8 1 2) @ [ImageRequestSingle True],
        Inr (Some 7, True))"
  by (simp add: pass_of_def isRequestNrValid_def mono8_frame_def display_and_save_frame_cases
        handle_unsupported_format_def release_and_requeue_def Let_def)

lemma second_rejected_pass:
  "capture_frames_body 1 (Some 7, True) (pass_of 8 mono8_frame)
     = ([ImageRequestWaitFor 8, Print SkippedUnsupportedFrame, Unlock 7, ImageRequestSingle True],
        Inr (Some 8, True))"
  by (simp add: pass_of_def isRequestNrValid_def mono8_frame_def display_and_save_frame_cases
        handle_unsupported_format_def release_and_requeue_def Let_def)

theorem release_ordering_witness:
  "length (held_after (fst (capture_frames 0 [pass_of 7 mono8_frame]))) \<le> 2
   \<and> length (held_after (fst (capture_and_buffer flaky_device))) \<le> 1"
proof -
  note t = release_ordering
             [where T = "fst (capture_frames 0 [pass_of 7 mono8_frame])" and capacity = 0
                and its = "[pass_of 7 mono8_frame]" and env = flaky_device]
  from t have "length (held_after (fst (capture_frames 0 [pass_of 7 mono8_frame]))) \<le> 2"
    by blast
  moreover from t have "length (held_after (fst (capture_and_buffer flaky_device))) \<le> 1"
    by blast
  ultimately show ?thesis by simp
qed

text \<open>
  C2 fails as it is worded. After \<open>capture_frames\<close> has returned from a run of one pass,
  request 7 is still locked: the request of the last wait is not released when the loop
  ends. In a run of two passes requests 7 and 8 are both locked once the second wait has
  returned. And a pass of \<open>capture_and_buffer\<close> unlocks request 7 before any later wait.
\<close>

theorem release_ordering_counterexample:
  "snd (capture_frames 0 [pass_of 7 mono8_frame]) = Returned (Some 7, True)
   \<and> held_after (fst (capture_frames 0 [pass_of 7 mono8_frame])) = [7]
   \<and> held_after (take 10 (fst (capture_frames_loop 0 (None, False)
                                  [pass_of 7 mono8_frame, pass_of 8 mono8_frame]))) = [7, 8]
   \<and> fst (capture_and_buffer_body recording_start (pass_of 7 mono8_frame))
       = ImageRequestWaitFor 7 # verbose_diagnostic (FormatInfo 1 8)
         @ [Unlock 7, ImageRequestSingle True]"
proof (intro conjI)
  show "snd (capture_frames 0 [pass_of 7 mono8_frame]) = Returned (Some 7, True)"
    by (simp add: capture_frames_outcome one_rejected_pass del: capture_frames_body.simps)
  show "held_after (fst (capture_frames 0 [pass_of 7 mono8_frame])) = [7]"
    by (simp add: capture_frames_trace one_rejected_pass held_after_def verbose_diagnostic_def
          isRequestNrValid_def del: capture_frames_body.simps)
  show "held_after (take 10 (fst (capture_frames_loop 0 (None, False)
                                  [pass_of 7 mono8_frame, pass_of 8 mono8_frame]))) = [7, 8]"
    using second_rejected_pass
    by (simp add: one_rejected_pass held_after_def verbose_diagnostic_def
          isRequestNrValid_def del: capture_frames_body.simps)
  show "fst (capture_and_buffer_body recording_start (pass_of 7 mono8_frame))
       = ImageRequestWaitFor 7 # verbose_diagnostic (FormatInfo 1 8)
         @ [Unlock 7, ImageRequestSingle True]"
    by (simp add: capture_and_buffer_body_def pass_of_def mono8_frame_def isRequestNrValid_def
          convert_frame_cases handle_unsupported_format_def recording_start_def wait_actions_def
          requeue_def Let_def)
qed

section \<open>The stop flag\<close>

lemma output_beside: "is_output a \<Longrightarrow> beside_flag a"
  by (cases a) simp_all

lemma outputs_beside: "list_all is_output acts \<Longrightarrow> list_all beside_flag acts"
  by (induction acts) (simp_all add: output_beside)

lemma stop_beside: "beside_flag a \<Longrightarrow> stop_step t a = t \<and> flag_respected t a"
  by (cases a; cases t) simp_all

lemma stop_beside_all:
  assumes "list_all beside_flag acts"
  shows "always stop_step flag_respected t acts \<and> foldl stop_step t acts = t"
  using assms
proof (rule always_kept)
  fix a
  assume "beside_flag a"
  then show "stop_step t a = t \<and> flag_respected t a" by (rule stop_beside)
qed

lemma stop_fold:
  "foldl stop_step (f, e) p = (f \<or> SetStop \<in> set p, e \<or> CheckStop True \<in> set p)"
proof (induction p arbitrary: f e)
  case Nil
  then show ?case by simp
next
  case (Cons a p)
  show ?case
  proof (cases a)
    case (CheckStop b)
    with Cons show ?thesis by (cases b) auto
  qed (use Cons in auto)
qed

lemma stop_wait:
  "always stop_step flag_respected (False, False) (wait_actions it)
   \<and> foldl stop_step (False, False) (wait_actions it) = (enter it \<noteq> NoEnter, False)"
  by (cases "enter it") (simp_all add: wait_actions_def)

lemma release_beside [simp]: "list_all beside_flag (release_and_requeue prev it)"
  by (simp add: release_and_requeue_def split: option.splits)

lemma requeue_beside [simp]: "list_all beside_flag (requeue it)"
  by (simp add: requeue_def)

lemma recording_flag_shaped: "flag_shaped stop_recording capture_and_buffer_body"
  unfolding flag_shaped_def
proof (intro allI)
  fix s :: rv_state and it
  show "\<exists>rest. fst (capture_and_buffer_body s it) = wait_actions it @ rest
          \<and> list_all beside_flag rest
          \<and> (\<forall>s'. snd (capture_and_buffer_body s it) = Inr s' \<longrightarrow>
                stop_recording s' = (enter it \<noteq> NoEnter \<or> stop_recording s))"
  proof (cases rule: capture_and_buffer_body_cases [where s = s and it = it])
    case timeout
    then show ?thesis by (simp add: wait_for_enter_def)
  next
    case (raised e)
    then show ?thesis by simp
  next
    case (served outs s')
    then show ?thesis by (simp add: outputs_beside wait_for_enter_def)
  qed
qed

lemma blocks_flag_shaped: "flag_shaped stop_acquisition capture_blocks_body"
  unfolding flag_shaped_def
proof (intro allI)
  fix s :: bs_state and it
  show "\<exists>rest. fst (capture_blocks_body s it) = wait_actions it @ rest
          \<and> list_all beside_flag rest
          \<and> (\<forall>s'. snd (capture_blocks_body s it) = Inr s' \<longrightarrow>
                stop_acquisition s' = (enter it \<noteq> NoEnter \<or> stop_acquisition s))"
  proof (cases rule: capture_blocks_body_cases [where s = s and it = it])
    case timeout
    then show ?thesis by (simp add: wait_for_enter_def)
  next
    case (raised outs e)
    then show ?thesis by (simp add: outputs_beside)
  next
    case (served outs s')
    then show ?thesis by (simp add: outputs_beside wait_for_enter_def)
  qed
qed

lemma stop_loop:
  assumes "flag_shaped stop body"
  shows "always stop_step flag_respected (stop s, False) (fst (while_not_stopped stop body s its))"
proof (rule while_always [where I = "\<lambda>s t. t = (stop s, False)"])
  show "(stop s, False) = (stop s, False)" by simp
next
  fix s t it
  assume t: "t = (stop s, False)" and ns: "\<not> stop s"
  from assms obtain rest where
    r: "fst (body s it) = wait_actions it @ rest" "list_all beside_flag rest"
       "\<forall>s'. snd (body s it) = Inr s' \<longrightarrow> stop s' = (enter it \<noteq> NoEnter \<or> stop s)"
    unfolding flag_shaped_def by blast
  from stop_beside_all [OF r(2), of "(enter it \<noteq> NoEnter, False)"] stop_wait [of it] r t ns
  show "flag_respected t (CheckStop False)
     \<and> always stop_step flag_respected (stop_step t (CheckStop False)) (fst (body s it))
     \<and> (\<forall>s'. snd (body s it) = Inr s' \<longrightarrow>
           foldl stop_step (stop_step t (CheckStop False)) (fst (body s it)) = (stop s', False))"
    by (simp add: always_append)
next
  fix s t
  assume "t = (stop s, False)"
  then show "flag_respected t (CheckStop (stop s))" by simp
qed

lemma prime_beside [simp]: "list_all beside_flag (fst (prime rs q))"
  by (induction rs arbitrary: q) (simp_all add: case_prod_beta)

lemma recording_run_flag:
  "always stop_step flag_respected (False, False) (fst (capture_and_buffer env))"
proof -
  let ?loop = "capture_and_buffer_loop (snd (capture_and_buffer_setup env)) (passes env)"
  let ?primed = "fst (prime (map (submit_ok env) [0..<MAX_REQUESTS]) 0)"
  let ?before = "[ImageRequestReset] @ ?primed
     @ [Print (QueuedInitialRequests (snd (prime (map (submit_ok env) [0..<MAX_REQUESTS]) 0))),
        StartAcquisition, Print CapturingRawRequests, StartThread]"
  have "list_all beside_flag ?before" by simp
  from stop_beside_all [OF this, of "(False, False)"]
  have b: "always stop_step flag_respected (False, False) (fst (capture_and_buffer_setup env))
           \<and> foldl stop_step (False, False) (fst (capture_and_buffer_setup env))
               = (early_enter env, False)"
    by (simp add: always_append)
  have l: "always stop_step flag_respected (early_enter env, False) (fst ?loop)"
    using stop_loop [OF recording_flag_shaped, of "snd (capture_and_buffer_setup env)" "passes env"]
    by (simp add: capture_and_buffer_loop_def)
  have a: "always stop_step flag_respected t (fst (capture_and_buffer_finish env s'))" for t s'
    using stop_beside_all [of "fst (capture_and_buffer_finish env s')" t]
    by (simp add: outputs_beside)
  show ?thesis
    using b l a by (simp add: capture_and_buffer_trace always_append split: outcome.splits)
qed

lemma blocks_run_flag:
  "always stop_step flag_respected (False, False) (fst (blockscan_main env))"
proof -
  let ?s = "snd (capture_blocks_setup (early_enter env) env)"
  let ?loop = "capture_blocks_loop ?s (passes env)"
  have "list_all beside_flag (fst (capture_blocks_setup (early_enter env) env))"
    by (simp add: list_all_iff)
  from stop_beside_all [OF this, of "(early_enter env, False)"]
  have b: "always stop_step flag_respected (early_enter env, False)
             (fst (capture_blocks_setup (early_enter env) env))
           \<and> foldl stop_step (early_enter env, False)
               (fst (capture_blocks_setup (early_enter env) env)) = (early_enter env, False)" .
  have l: "always stop_step flag_respected (early_enter env, False) (fst ?loop)"
    using stop_loop [OF blocks_flag_shaped, of ?s "passes env"]
    by (simp add: capture_blocks_loop_def)
  have a: "always stop_step flag_respected t (fst (capture_blocks_finish s'))" for t s'
    using stop_beside_all [of "fst (capture_blocks_finish s')" t]
    by (simp add: outputs_beside)
  have "always stop_step flag_respected (early_enter env, False)
          (fst (capture_blocks (early_enter env) env))"
    using b l a by (simp add: capture_blocks_trace always_append split: outcome.splits)
  then show ?thesis
    by (cases "early_enter env") (simp_all add: blockscan_main_def case_prod_beta wait_for_enter_def)
qed

text \<open>
  C10. The stop flag is monotone. In every run of \<open>capture_and_buffer\<close> and of the block-scan
  \<open>main\<close>, with the assignment of the input thread falling before the loop, before the wait
  of a pass or after it: each evaluation of the loop guard reads True exactly when the
  assignment has happened before it (so the flag starts False and nothing sets it back);
  the assignment happens at most once; and after a guard has read True there is no further
  wait and no further evaluation of the guard.
\<close>

theorem stop_flag_is_monotone:
  "(T = fst (capture_and_buffer env) \<or> T = fst (blockscan_main env) \<longrightarrow>
      (\<forall>p b. prefix (p @ [CheckStop b]) T \<longrightarrow> b = (SetStop \<in> set p))
      \<and> (\<forall>p. prefix (p @ [SetStop]) T \<longrightarrow> SetStop \<notin> set p)
      \<and> (\<forall>p a. prefix (p @ [a]) T \<and> CheckStop True \<in> set p \<longrightarrow>
            (\<forall>nr. a \<noteq> ImageRequestWaitFor nr) \<and> (\<forall>b. a \<noteq> CheckStop b)))"
proof (intro impI conjI allI)
  assume "T = fst (capture_and_buffer env) \<or> T = fst (blockscan_main env)"
  then have r: "always stop_step flag_respected (False, False) T"
    using recording_run_flag blocks_run_flag by blast
  {
    fix p b
    assume "prefix (p @ [CheckStop b]) T"
    with r have "flag_respected (foldl stop_step (False, False) p) (CheckStop b)"
      by (simp add: always_prefix)
    then show "b = (SetStop \<in> set p)" by (simp add: stop_fold)
  }
  {
    fix p
    assume "prefix (p @ [SetStop]) T"
    with r have "flag_respected (foldl stop_step (False, False) p) SetStop"
      by (simp add: always_prefix)
    then show "SetStop \<notin> set p" by (simp add: stop_fold)
  }
  {
    fix p a
    assume "prefix (p @ [a]) T \<and> CheckStop True \<in> set p"
    with r have f: "flag_respected (foldl stop_step (False, False) p) a"
      and e: "CheckStop True \<in> set p"
      by (simp_all add: always_prefix)
    {
      fix nr
      show "a \<noteq> ImageRequestWaitFor nr" using f e by (auto simp: stop_fold)
    }
    {
      fix b
      show "a \<noteq> CheckStop b" using f e by (auto simp: stop_fold)
    }
  }
qed

section \<open>Stopping\<close>

lemma enter_in_first_pass_trace:
  "fst (blockscan_main enter_in_first_pass) =
     [StartThread, ImageRequestSingle True, ImageRequestSingle True, ImageRequestSingle True,
      ImageRequestSingle True, ImageRequestSingle True, StartAcquisition,
      CheckStop False, SetStop, ImageRequestWaitFor 0, ImageRequestSingle True,
      CheckStop True, StopAcquisition, DestroyAllWindows,
      Imwrite \<lparr>shape = [2, 2, 1], elems = [0, 1, 2, 3]\<rparr>, Print SavedStitchedImage]
   \<and> snd (blockscan_main enter_in_first_pass) = Returned ()"
proof -
  have x: "extract_block mono8_frame = Inr ([], Some \<lparr>shape = [2, 2, 1], elems = [0, 1, 2, 3]\<rparr>)"
    using extract_block_uint8 [of mono8_frame]
    by (simp add: mono8_frame_def raw_block_def from_address_def upt_conv_Cons)
  have b: "capture_blocks_body
             \<lparr>stop_acquisition = False, previous_request = None, stitched_blocks = []\<rparr>
             ((pass_of 0 mono8_frame)\<lparr>enter := EnterBeforeWait\<rparr>)
           = ([SetStop, ImageRequestWaitFor 0, ImageRequestSingle True],
              Inr \<lparr>stop_acquisition = True, previous_request = Some 0,
                   stitched_blocks = [\<lparr>shape = [2, 2, 1], elems = [0, 1, 2, 3]\<rparr>]\<rparr>)"
    using x
    by (simp add: capture_blocks_body_def pass_of_def isRequestNrValid_def wait_actions_def
          wait_for_enter_def release_and_requeue_def Let_def mono8_frame_def)
  have v: "vstack [\<lparr>shape = [2, 2, 1], elems = [0, 1, 2, 3 :: byte]\<rparr>]
             = Inr \<lparr>shape = [2, 2, 1], elems = [0, 1, 2, 3]\<rparr>"
    by (simp add: vstack_def atleast_2d_def)
  show ?thesis
    using b v
    by (simp add: blockscan_main_def case_prod_beta capture_blocks_trace capture_blocks_outcome
          capture_blocks_start enter_in_first_pass_def wait_for_enter_def upt_conv_Cons
          save_stitched_def
          del: capture_blocks_setup_simps(2-4))
qed

theorem stop_flag_is_monotone_witness:
  "(True = (SetStop \<in> set [StartThread, ImageRequestSingle True, ImageRequestSingle True,
      ImageRequestSingle True, ImageRequestSingle True, ImageRequestSingle True, StartAcquisition,
      CheckStop False, SetStop, ImageRequestWaitFor 0, ImageRequestSingle True]))
   \<and> SetStop \<notin> set [StartThread, ImageRequestSingle True, ImageRequestSingle True,
      ImageRequestSingle True, ImageRequestSingle True, ImageRequestSingle True, StartAcquisition,
      CheckStop False]"
proof -
  note t = stop_flag_is_monotone
             [where T = "fst (blockscan_main enter_in_first_pass)" and env = enter_in_first_pass]
  let ?p = "[StartThread, ImageRequestSingle True, ImageRequestSingle True,
      ImageRequestSingle True, ImageRequestSingle True, ImageRequestSingle True, StartAcquisition,
      CheckStop False]"
  let ?q = "?p @ [SetStop, ImageRequestWaitFor 0, ImageRequestSingle True]"
  have "prefix (?q @ [CheckStop True]) (fst (blockscan_main enter_in_first_pass))"
    by (simp add: enter_in_first_pass_trace)
  with t have a: "True = (SetStop \<in> set ?q)" by blast
  have "prefix (?p @ [SetStop]) (fst (blockscan_main enter_in_first_pass))"
    by (simp add: enter_in_first_pass_trace)
  with t have "SetStop \<notin> set ?p" by blast
  with a show ?thesis by simp
qed

lemma late_beside: "beside_flag a \<Longrightarrow> late_wait_step t a = t"
  by (cases a; cases t) simp_all

lemma late_beside_all:
  assumes "list_all beside_flag acts" and "snd t \<le> 1"
  shows "always late_wait_step (\<lambda>t a. snd (late_wait_step t a) \<le> 1) t acts
         \<and> foldl late_wait_step t acts = t"
  using assms(1)
proof (rule always_kept)
  fix a
  assume "beside_flag a"
  then show "late_wait_step t a = t \<and> snd (late_wait_step t a) \<le> 1"
    using assms(2) by (simp add: late_beside)
qed

lemma late_wait:
  "always late_wait_step (\<lambda>t a. snd (late_wait_step t a) \<le> 1) (False, 0) (wait_actions it)
   \<and> foldl late_wait_step (False, 0) (wait_actions it)
       = (enter it \<noteq> NoEnter, if enter it = EnterBeforeWait then 1 else 0)"
  by (cases "enter it") (simp_all add: wait_actions_def)

lemma late_loop:
  assumes "flag_shaped stop body" and "t = (stop s, w)" and "w \<le> (1::nat)"
    and "\<not> stop s \<longrightarrow> w = 0"
  shows "always late_wait_step (\<lambda>t a. snd (late_wait_step t a) \<le> 1) t
           (fst (while_not_stopped stop body s its))"
proof (rule while_always
         [where I = "\<lambda>s t. fst t = stop s \<and> snd t \<le> (1::nat) \<and> (\<not> stop s \<longrightarrow> snd t = 0)"])
  show "fst t = stop s \<and> snd t \<le> 1 \<and> (\<not> stop s \<longrightarrow> snd t = 0)"
    using assms(2-4) by simp
next
  fix s and t :: "bool \<times> nat" and it
  assume i: "fst t = stop s \<and> snd t \<le> 1 \<and> (\<not> stop s \<longrightarrow> snd t = 0)" and ns: "\<not> stop s"
  then have t: "t = (False, 0)" by (cases t) simp
  from assms(1) obtain rest where
    r: "fst (body s it) = wait_actions it @ rest" "list_all beside_flag rest"
       "\<forall>s'. snd (body s it) = Inr s' \<longrightarrow> stop s' = (enter it \<noteq> NoEnter \<or> stop s)"
    unfolding flag_shaped_def by blast
  let ?u = "(enter it \<noteq> NoEnter, if enter it = EnterBeforeWait then 1 else 0 :: nat)"
  have "snd ?u \<le> 1" by simp
  from late_beside_all [OF r(2) this] late_wait [of it] r ns
  show "snd (late_wait_step t (CheckStop False)) \<le> 1
     \<and> always late_wait_step (\<lambda>t a. snd (late_wait_step t a) \<le> 1)
          (late_wait_step t (CheckStop False)) (fst (body s it))
     \<and> (\<forall>s'. snd (body s it) = Inr s' \<longrightarrow>
           fst (foldl late_wait_step (late_wait_step t (CheckStop False)) (fst (body s it)))
             = stop s'
           \<and> snd (foldl late_wait_step (late_wait_step t (CheckStop False)) (fst (body s it)))
               \<le> 1
           \<and> (\<not> stop s' \<longrightarrow>
                 snd (foldl late_wait_step (late_wait_step t (CheckStop False))
                        (fst (body s it))) = 0))"
    unfolding t by (auto simp: always_append)
next
  fix s and t :: "bool \<times> nat"
  assume "fst t = stop s \<and> snd t \<le> 1 \<and> (\<not> stop s \<longrightarrow> snd t = 0)"
  then show "snd (late_wait_step t (CheckStop (stop s))) \<le> 1" by (cases t) simp
qed

lemma late_end:
  assumes "snd t \<le> 1"
    and "always late_wait_step (\<lambda>t a. snd (late_wait_step t a) \<le> 1) t T"
  shows "snd (foldl late_wait_step t T) \<le> 1"
  using always_states [where Q = "\<lambda>t. snd t \<le> 1", OF assms prefix_order.order_refl] .

lemma late_run:
  assumes "list_all beside_flag before" and "list_all beside_flag middle"
    and "list_all beside_flag after" and "flag_shaped stop body"
  shows "snd (foldl late_wait_step (False, 0)
                (before @ (if stop s then [SetStop] else []) @ middle
                   @ fst (while_not_stopped stop body s its) @ after)) \<le> 1"
proof -
  let ?P = "\<lambda>t a. snd (late_wait_step t a) \<le> 1"
  have b: "foldl late_wait_step (False, 0) before = (False, 0)"
    using late_beside_all [OF assms(1), of "(False, 0)"] by simp
  have m: "foldl late_wait_step (stop s, 0) middle = (stop s, 0)"
    using late_beside_all [OF assms(2), of "(stop s, 0)"] by simp
  have l: "always late_wait_step ?P (stop s, 0) (fst (while_not_stopped stop body s its))"
    using assms(4) by (rule late_loop [where w = 0]) simp_all
  have "snd (foldl late_wait_step (stop s, 0) (fst (while_not_stopped stop body s its))) \<le> 1"
    using _ l by (rule late_end) simp
  then have "snd (foldl late_wait_step
                    (foldl late_wait_step (stop s, 0) (fst (while_not_stopped stop body s its)))
                    after) \<le> 1"
    using late_beside_all [OF assms(3)] by simp
  then show ?thesis using b m by (cases "stop s") simp_all
qed

section \<open>The loop ends once ENTER has arrived\<close>

lemma loop_stops:
  assumes "flag_shaped stop body" and "stop s \<or> (\<exists>it \<in> set its. enter it \<noteq> NoEnter)"
  shows "snd (while_not_stopped stop body s its) \<noteq> StillRunning"
  using assms(2)
proof (induction its arbitrary: s)
  case Nil
  then show ?case by simp
next
  case (Cons it its)
  show ?case
  proof (cases "stop s")
    case True
    then show ?thesis by simp
  next
    case ns: False
    show ?thesis
    proof (cases "snd (body s it)")
      case (Inl e)
      with ns show ?thesis by (simp add: while_not_stopped_snd del: while_not_stopped.simps)
    next
      case (Inr s')
      from assms(1) have "stop s' = (enter it \<noteq> NoEnter \<or> stop s)"
        using Inr unfolding flag_shaped_def by blast
      with Cons.prems ns have "stop s' \<or> (\<exists>it \<in> set its. enter it \<noteq> NoEnter)" by auto
      from Cons.IH [OF this] ns Inr show ?thesis
        by (simp add: while_not_stopped_snd del: while_not_stopped.simps)
    qed
  qed
qed

section \<open>The sink is finalized once\<close>

lemma finalizations_append [simp]:
  "finalizations (a @ b) = finalizations a + finalizations b"
  by (simp add: finalizations_def)

lemma finalizations_Nil [simp]: "finalizations [] = 0"
  by (simp add: finalizations_def)

lemma finalizations_Cons [simp]:
  "finalizations (a # b) = (if is_finalize a then Suc (finalizations b) else finalizations b)"
  by (simp add: finalizations_def)

lemma convert_frame_no_finalize:
  "convert_frame p f = Inr (acts, fr, f') \<Longrightarrow> finalizations acts = 0"
  by (auto simp: convert_frame_cases handle_unsupported_format_def verbose_diagnostic_def
        split: if_splits)

lemma extract_block_no_finalize:
  "extract_block p = Inr (acts, b) \<Longrightarrow> finalizations acts = 0"
  by (auto simp: extract_block_def Let_def split: if_splits sum.splits)

lemma wait_no_finalize [simp]: "finalizations (wait_actions it) = 0"
  by (simp add: wait_actions_def)

lemma requeue_no_finalize [simp]: "finalizations (requeue it) = 0"
  by (simp add: requeue_def)

lemma release_no_finalize [simp]: "finalizations (release_and_requeue prev it) = 0"
  by (simp add: release_and_requeue_def split: option.splits)

lemma recording_body_no_finalize: "finalizations (fst (capture_and_buffer_body s it)) = 0"
proof (cases "convert_frame (delivered it) (warning_flag s)")
  case (Inl e)
  then show ?thesis by (simp add: capture_and_buffer_body_def Let_def)
next
  case (Inr x)
  obtain acts fr f' where x: "x = (acts, fr, f')" by (cases x) auto
  with Inr have "finalizations acts = 0" using convert_frame_no_finalize by blast
  with Inr x show ?thesis
    by (simp add: capture_and_buffer_body_def Let_def split: option.splits)
qed

lemma blocks_body_no_finalize: "finalizations (fst (capture_blocks_body s it)) = 0"
proof (cases "extract_block (delivered it)")
  case (Inl e)
  then show ?thesis by (simp add: capture_blocks_body_def Let_def)
next
  case (Inr x)
  obtain acts b where x: "x = (acts, b)" by (cases x) auto
  with Inr have "finalizations acts = 0" using extract_block_no_finalize by blast
  with Inr x show ?thesis
    by (simp add: capture_blocks_body_def Let_def split: option.splits sum.splits)
qed

lemma loop_no_finalize:
  assumes "\<And>s it. finalizations (fst (body s it)) = 0"
  shows "finalizations (fst (while_not_stopped stop body s its)) = 0"
proof (induction its arbitrary: s)
  case Nil
  then show ?case by simp
next
  case (Cons it its)
  then show ?case
    using assms [of s it]
    by (simp add: while_not_stopped_fst del: while_not_stopped.simps split: sum.splits)
qed

lemma prime_no_finalize [simp]: "finalizations (fst (prime rs q)) = 0"
  by (induction rs arbitrary: q) (simp_all add: case_prod_beta)

lemma save_video_finalizations:
  "finalizations (fst (save_video reqs a b))
     = (case snd (save_video reqs a b) of Returned u \<Rightarrow> 1 | Raised e \<Rightarrow> 0 | StillRunning \<Rightarrow> 0)"
  by (simp add: save_video_def Let_def)

lemma save_stitched_finalizations:
  "finalizations (fst (save_stitched blocks))
     = (case snd (save_stitched blocks) of Returned u \<Rightarrow> 1 | Raised e \<Rightarrow> 0 | StillRunning \<Rightarrow> 0)"
  by (simp add: save_stitched_def split: sum.splits)

lemma recording_finalizations:
  "finalizations (fst (capture_and_buffer env))
     = (case snd (capture_and_buffer env) of
          Returned u \<Rightarrow> 1 | Raised e \<Rightarrow> 0 | StillRunning \<Rightarrow> 0)"
proof -
  have "finalizations (fst (capture_and_buffer_loop s (passes env))) = 0" for s
    unfolding capture_and_buffer_loop_def
    by (rule loop_no_finalize) (rule recording_body_no_finalize)
  then show ?thesis
    by (simp add: capture_and_buffer_trace capture_and_buffer_outcome save_video_finalizations
          split: outcome.splits)
qed

lemma setup5_no_finalize [simp]:
  "finalizations (map (\<lambda>i. ImageRequestSingle (f i)) xs) = 0"
  by (induction xs) simp_all

lemma blocks_finalizations:
  "finalizations (fst (blockscan_main env))
     = (case snd (blockscan_main env) of
          Returned u \<Rightarrow> 1 | Raised e \<Rightarrow> 0 | StillRunning \<Rightarrow> 0)"
proof -
  have "finalizations (fst (capture_blocks_loop s (passes env))) = 0" for s
    unfolding capture_blocks_loop_def
    by (rule loop_no_finalize) (rule blocks_body_no_finalize)
  then show ?thesis
    by (simp add: blockscan_main_def case_prod_beta capture_blocks_trace capture_blocks_outcome
          save_stitched_finalizations split: outcome.splits)
qed

lemma recording_late_waits: "waits_after_stop (fst (capture_and_buffer env)) \<le> 1"
proof -
  let ?s = "snd (capture_and_buffer_setup env)"
  let ?primed = "prime (map (submit_ok env) [0..<MAX_REQUESTS]) 0"
  let ?before = "[ImageRequestReset] @ fst ?primed
     @ [Print (QueuedInitialRequests (snd ?primed)), StartAcquisition,
        Print CapturingRawRequests, StartThread]"
  let ?after = "case snd (capture_and_buffer_loop ?s (passes env)) of
                  Returned s' \<Rightarrow> fst (capture_and_buffer_finish env s')
                | Raised e \<Rightarrow> [] | StillRunning \<Rightarrow> []"
  have b: "list_all beside_flag ?before" by simp
  have a: "list_all beside_flag ?after"
    by (simp add: outputs_beside split: outcome.splits)
  have "fst (capture_and_buffer env)
          = ?before @ (if stop_recording ?s then [SetStop] else []) @ []
            @ fst (while_not_stopped stop_recording capture_and_buffer_body ?s (passes env))
            @ ?after"
    by (simp add: capture_and_buffer_trace capture_and_buffer_loop_def)
  then show ?thesis
    unfolding waits_after_stop_def
    using late_run [OF b _ a recording_flag_shaped, of "[]" ?s "passes env"] by simp
qed

lemma blocks_late_waits: "waits_after_stop (fst (blockscan_main env)) \<le> 1"
proof -
  let ?s = "snd (capture_blocks_setup (early_enter env) env)"
  let ?middle = "fst (capture_blocks_setup (early_enter env) env)"
  let ?after = "case snd (capture_blocks_loop ?s (passes env)) of
                  Returned s' \<Rightarrow> fst (capture_blocks_finish s')
                | Raised e \<Rightarrow> [] | StillRunning \<Rightarrow> []"
  have b: "list_all beside_flag [StartThread]" by simp
  have m: "list_all beside_flag ?middle" by (simp add: list_all_iff)
  have a: "list_all beside_flag ?after"
    by (simp add: outputs_beside split: outcome.splits)
  have "fst (blockscan_main env)
          = [StartThread] @ (if stop_acquisition ?s then [SetStop] else []) @ ?middle
            @ fst (while_not_stopped stop_acquisition capture_blocks_body ?s (passes env))
            @ ?after"
    by (cases "early_enter env")
       (simp_all add: blockscan_main_def case_prod_beta wait_for_enter_def capture_blocks_trace
          capture_blocks_loop_def)
  then show ?thesis
    unfolding waits_after_stop_def
    using late_run [OF b m a blocks_flag_shaped, of ?s "passes env"] by simp
qed

lemma recording_stops:
  assumes "early_enter env \<or> (\<exists>it \<in> set (passes env). enter it \<noteq> NoEnter)"
  shows "snd (capture_and_buffer env) \<noteq> StillRunning"
proof -
  have "snd (capture_and_buffer_loop (snd (capture_and_buffer_setup env)) (passes env))
          \<noteq> StillRunning"
    unfolding capture_and_buffer_loop_def
    using recording_flag_shaped by (rule loop_stops) (use assms in simp)
  then show ?thesis
    by (simp add: capture_and_buffer_outcome save_video_def Let_def split: outcome.splits)
qed

lemma blocks_stops:
  assumes "early_enter env \<or> (\<exists>it \<in> set (passes env). enter it \<noteq> NoEnter)"
  shows "snd (blockscan_main env) \<noteq> StillRunning"
proof -
  have "snd (capture_blocks_loop (snd (capture_blocks_setup (early_enter env) env)) (passes env))
          \<noteq> StillRunning"
    unfolding capture_blocks_loop_def
    using blocks_flag_shaped by (rule loop_stops) (use assms in simp)
  then show ?thesis
    by (cases "early_enter env")
       (simp_all add: blockscan_main_def case_prod_beta wait_for_enter_def capture_blocks_outcome
          save_stitched_def split: outcome.splits sum.splits)
qed

section \<open>What the loops gather\<close>

lemma convert_frame_frame:
  "convert_frame p flag = Inr (acts, frame, flag')
     \<Longrightarrow> \<exists>acts' flag''. convert_frame p False = Inr (acts', frame, flag'')"
  by (auto simp: convert_frame_cases split: if_splits)

lemma recording_pass:
  assumes "snd (capture_and_buffer_body s it) = Inr s'"
  shows "requests s' @ recorded (enter it \<noteq> NoEnter) its = requests s @ recorded False (it # its)"
proof (cases "isRequestNrValid (wait_nr it) \<and> isOK (delivered it)")
  case False
  with assms show ?thesis
    by (auto simp: capture_and_buffer_body_def Let_def split: if_splits)
next
  case True
  show ?thesis
  proof (cases "convert_frame (delivered it) (warning_flag s)")
    case (Inl e)
    with True assms show ?thesis by (simp add: capture_and_buffer_body_def Let_def)
  next
    case (Inr x)
    obtain acts frame f' where x: "x = (acts, frame, f')" by (cases x) auto
    from convert_frame_frame [of "delivered it" "warning_flag s" acts frame f'] Inr x
    obtain acts' f'' where "convert_frame (delivered it) False = Inr (acts', frame, f'')"
      by auto
    with True assms Inr x show ?thesis
      by (auto simp: capture_and_buffer_body_def Let_def split: option.splits)
  qed
qed

lemma recording_pass_stop:
  assumes "snd (capture_and_buffer_body s it) = Inr s'" and "\<not> stop_recording s"
  shows "stop_recording s' = (enter it \<noteq> NoEnter)"
  using assms recording_flag_shaped unfolding flag_shaped_def by blast

lemma recorded_loop:
  "snd (capture_and_buffer_loop s its) = Returned s'
     \<Longrightarrow> requests s' = requests s @ recorded (stop_recording s) its"
proof (induction its arbitrary: s)
  case Nil
  then show ?case by (simp split: if_splits)
next
  case (Cons it its)
  show ?case
  proof (cases "stop_recording s")
    case True
    with Cons.prems show ?thesis by simp
  next
    case ns: False
    show ?thesis
    proof (cases "snd (capture_and_buffer_body s it)")
      case (Inl e)
      with ns Cons.prems show ?thesis
        by (simp add: case_prod_beta split: sum.splits)
    next
      case (Inr s1)
      with ns Cons.prems have "snd (capture_and_buffer_loop s1 its) = Returned s'"
        by (simp add: case_prod_beta split: sum.splits)
      from Cons.IH [OF this] recording_pass_stop [OF Inr ns] recording_pass [OF Inr, of its] ns
      show ?thesis by simp
    qed
  qed
qed

lemma blocks_pass:
  assumes "snd (capture_blocks_body s it) = Inr s'"
  shows "stitched_blocks s' @ stitched (enter it \<noteq> NoEnter) its
           = stitched_blocks s @ stitched False (it # its)"
proof (cases "isRequestNrValid (wait_nr it) \<and> isOK (delivered it)")
  case False
  with assms show ?thesis
    by (auto simp: capture_blocks_body_def Let_def split: if_splits)
next
  case True
  show ?thesis
  proof (cases "extract_block (delivered it)")
    case (Inl e)
    with True assms show ?thesis by (simp add: capture_blocks_body_def Let_def)
  next
    case (Inr x)
    obtain acts block where x: "x = (acts, block)" by (cases x) auto
    with True assms Inr show ?thesis
      by (auto simp: capture_blocks_body_def Let_def split: option.splits if_splits sum.splits)
  qed
qed

lemma blocks_pass_stop:
  assumes "snd (capture_blocks_body s it) = Inr s'" and "\<not> stop_acquisition s"
  shows "stop_acquisition s' = (enter it \<noteq> NoEnter)"
  using assms blocks_flag_shaped unfolding flag_shaped_def by blast

lemma stitched_loop:
  "snd (capture_blocks_loop s its) = Returned s'
     \<Longrightarrow> stitched_blocks s' = stitched_blocks s @ stitched (stop_acquisition s) its"
proof (induction its arbitrary: s)
  case Nil
  then show ?case by (simp split: if_splits)
next
  case (Cons it its)
  show ?case
  proof (cases "stop_acquisition s")
    case True
    with Cons.prems show ?thesis by simp
  next
    case ns: False
    show ?thesis
    proof (cases "snd (capture_blocks_body s it)")
      case (Inl e)
      with ns Cons.prems show ?thesis
        by (simp add: case_prod_beta split: sum.splits)
    next
      case (Inr s1)
      with ns Cons.prems have "snd (capture_blocks_loop s1 its) = Returned s'"
        by (simp add: case_prod_beta split: sum.splits)
      from Cons.IH [OF this] blocks_pass_stop [OF Inr ns] blocks_pass [OF Inr, of its] ns
      show ?thesis by simp
    qed
  qed
qed

section \<open>Runs that no exception ends\<close>

text \<open>When no pass raises, the loop does not end with an exception.\<close>

lemma loop_never_raises:
  assumes "I s its"
    and "\<And>s it its. I s (it # its) \<Longrightarrow> \<not> stop s \<Longrightarrow>
           (\<forall>e. snd (body s it) \<noteq> Inl e) \<and> (\<forall>s'. snd (body s it) = Inr s' \<longrightarrow> I s' its)"
  shows "snd (while_not_stopped stop body s its) \<noteq> Raised e"
  using assms(1)
proof (induction its arbitrary: s)
  case Nil
  then show ?case by simp
next
  case (Cons it its)
  show ?case
  proof (cases "stop s")
    case True
    then show ?thesis by simp
  next
    case ns: False
    from assms(2) [OF Cons.prems ns]
    have a: "\<forall>e. snd (body s it) \<noteq> Inl e"
      and b: "\<forall>s'. snd (body s it) = Inr s' \<longrightarrow> I s' its"
      by simp_all
    show ?thesis
    proof (cases "snd (body s it)")
      case (Inl e')
      with a show ?thesis by simp
    next
      case (Inr s')
      with b have "I s' its" by simp
      from Cons.IH [OF this] ns Inr show ?thesis
        by (simp add: while_not_stopped_snd del: while_not_stopped.simps)
    qed
  qed
qed

lemma convert_frame_even: "even (imageSize p) \<Longrightarrow> convert_frame p flag \<noteq> Inl e"
  by (simp add: convert_frame_cases)

lemma recording_body_even:
  "even (imageSize (delivered it)) \<Longrightarrow> snd (capture_and_buffer_body s it) \<noteq> Inl e"
  using convert_frame_even [of "delivered it" "warning_flag s"]
  by (auto simp: capture_and_buffer_body_def Let_def split: sum.splits option.splits)

lemma recording_never_raises:
  assumes "\<forall>it \<in> set its. even (imageSize (delivered it))"
  shows "snd (capture_and_buffer_loop s its) \<noteq> Raised e"
  unfolding capture_and_buffer_loop_def
proof (rule loop_never_raises
         [where I = "\<lambda>s its. \<forall>it \<in> set its. even (imageSize (delivered (it :: iteration)))"])
  show "\<forall>it \<in> set its. even (imageSize (delivered it))" by (rule assms)
next
  fix s :: rv_state and it :: iteration and its :: "iteration list"
  assume "\<forall>it \<in> set (it # its). even (imageSize (delivered it))"
  then show "(\<forall>e. snd (capture_and_buffer_body s it) \<noteq> Inl e)
     \<and> (\<forall>s'. snd (capture_and_buffer_body s it) = Inr s' \<longrightarrow>
            (\<forall>it \<in> set its. even (imageSize (delivered it))))"
    by (simp add: recording_body_even)
qed

text \<open>A frame that \<open>extract_block\<close> can view and reshape.\<close>

lemma extract_block_clean:
  assumes "0 < imageChannelCount p"
    and "imageChannelBitDepth p \<le> 8 \<or> even (imageSize p)"
  shows "extract_block p \<noteq> Inl e"
  using assms
  by (auto simp: extract_block_def frombuffer_uint16_cases frombuffer_uint8_def Let_def
        reshape_def arr_size_def)

lemma vstack_agree:
  assumes "xs \<noteq> []" and "\<forall>b \<in> set xs. row_shape b = R"
  shows "\<exists>img. vstack xs = Inr img"
proof -
  from assms have "\<forall>b \<in> set xs. row_shape b = row_shape (hd xs)" by simp
  from vstack_same_rows [OF assms(1) this] show ?thesis by blast
qed

lemma blocks_body_clean:
  assumes "0 < imageChannelCount (delivered it)"
    and "imageChannelBitDepth (delivered it) \<le> 8 \<or> even (imageSize (delivered it))"
    and "\<forall>b \<in> set (stitched_blocks s @ stitched False (it # its)). row_shape b = R"
  shows "snd (capture_blocks_body s it) \<noteq> Inl e"
proof (cases "isRequestNrValid (wait_nr it) \<and> isOK (delivered it)")
  case False
  then show ?thesis by (auto simp: capture_blocks_body_def Let_def)
next
  case True
  show ?thesis
  proof (cases "extract_block (delivered it)")
    case (Inl e')
    with extract_block_clean [OF assms(1,2), of e'] show ?thesis by simp
  next
    case (Inr x)
    obtain acts block where x: "x = (acts, block)" by (cases x) auto
    show ?thesis
    proof (cases block)
      case None
      with True Inr x show ?thesis by (simp add: capture_blocks_body_def Let_def)
    next
      case (Some b)
      let ?xs = "drop (Suc (length (stitched_blocks s)) - 40) (stitched_blocks s @ [b])"
      have "b \<in> set (stitched False (it # its))" using True Inr x Some by simp
      with assms(3) have "\<forall>c \<in> set (stitched_blocks s @ [b]). row_shape c = R" by auto
      moreover have "set ?xs \<subseteq> set (stitched_blocks s @ [b])" by (rule set_drop_subset)
      ultimately have r: "\<forall>c \<in> set ?xs. row_shape c = R" by blast
      have "length ?xs \<noteq> 0" by simp
      then have "?xs \<noteq> []" by (simp only: length_0_conv not_False_eq_True)
      from vstack_agree [OF this r] obtain img where "vstack ?xs = Inr img" by blast
      with True Inr x Some show ?thesis by (simp add: capture_blocks_body_def Let_def)
    qed
  qed
qed

lemma blocks_never_raise:
  assumes "\<forall>it \<in> set its. 0 < imageChannelCount (delivered it)
             \<and> (imageChannelBitDepth (delivered it) \<le> 8 \<or> even (imageSize (delivered it)))"
    and "\<forall>b \<in> set (stitched_blocks s @ stitched (stop_acquisition s) its). row_shape b = R"
  shows "snd (capture_blocks_loop s its) \<noteq> Raised e"
  unfolding capture_blocks_loop_def
proof (rule loop_never_raises
         [where I = "\<lambda>s its.
            (\<forall>it \<in> set its. 0 < imageChannelCount (delivered (it :: iteration))
                \<and> (imageChannelBitDepth (delivered it) \<le> 8 \<or> even (imageSize (delivered it))))
            \<and> (\<forall>b \<in> set (stitched_blocks s @ stitched (stop_acquisition s) its).
                  row_shape b = R)"])
  show "(\<forall>it \<in> set its. 0 < imageChannelCount (delivered it)
             \<and> (imageChannelBitDepth (delivered it) \<le> 8 \<or> even (imageSize (delivered it))))
        \<and> (\<forall>b \<in> set (stitched_blocks s @ stitched (stop_acquisition s) its). row_shape b = R)"
    using assms by simp
next
  fix s :: bs_state and it :: iteration and its :: "iteration list"
  assume i: "(\<forall>it \<in> set (it # its). 0 < imageChannelCount (delivered it)
             \<and> (imageChannelBitDepth (delivered it) \<le> 8 \<or> even (imageSize (delivered it))))
        \<and> (\<forall>b \<in> set (stitched_blocks s @ stitched (stop_acquisition s) (it # its)).
              row_shape b = R)"
    and ns: "\<not> stop_acquisition s"
  from i ns have r: "\<forall>b \<in> set (stitched_blocks s @ stitched False (it # its)). row_shape b = R"
    by simp
  from i have c: "0 < imageChannelCount (delivered it)"
    "imageChannelBitDepth (delivered it) \<le> 8 \<or> even (imageSize (delivered it))"
    by simp_all
  have a: "\<forall>e. snd (capture_blocks_body s it) \<noteq> Inl e"
    using blocks_body_clean [OF c r] by blast
  have b: "\<forall>s'. snd (capture_blocks_body s it) = Inr s' \<longrightarrow>
            (\<forall>b \<in> set (stitched_blocks s' @ stitched (stop_acquisition s') its).
                  row_shape b = R)"
  proof (intro allI impI)
    fix s'
    assume e: "snd (capture_blocks_body s it) = Inr s'"
    from blocks_pass [OF e, of its] blocks_pass_stop [OF e ns] r
    show "\<forall>b \<in> set (stitched_blocks s' @ stitched (stop_acquisition s') its). row_shape b = R"
      by simp
  qed
  from a b i
  show "(\<forall>e. snd (capture_blocks_body s it) \<noteq> Inl e)
     \<and> (\<forall>s'. snd (capture_blocks_body s it) = Inr s' \<longrightarrow>
           (\<forall>it \<in> set its. 0 < imageChannelCount (delivered it)
               \<and> (imageChannelBitDepth (delivered it) \<le> 8 \<or> even (imageSize (delivered it))))
           \<and> (\<forall>b \<in> set (stitched_blocks s' @ stitched (stop_acquisition s') its).
                 row_shape b = R))"
    by simp
qed

text \<open>A run in which ENTER arrives and no pass raises returns.\<close>

lemma outcome_cases:
  "r \<noteq> StillRunning \<Longrightarrow> (\<And>e. r \<noteq> Raised e) \<Longrightarrow> \<exists>s. r = Returned s"
  by (cases r) auto

lemma recording_returns:
  assumes "early_enter env \<or> (\<exists>it \<in> set (passes env). enter it \<noteq> NoEnter)"
    and "\<forall>it \<in> set (passes env). even (imageSize (delivered it))"
    and "recorded (early_enter env) (passes env) = [] \<or> end_time env \<noteq> start_time env"
  shows "snd (capture_and_buffer env) = Returned ()"
proof -
  let ?loop = "capture_and_buffer_loop (snd (capture_and_buffer_setup env)) (passes env)"
  have "snd ?loop \<noteq> StillRunning"
    unfolding capture_and_buffer_loop_def
    using recording_flag_shaped by (rule loop_stops) (use assms(1) in simp)
  moreover have "snd ?loop \<noteq> Raised e" for e
    using assms(2) by (rule recording_never_raises)
  ultimately obtain s' where l: "snd ?loop = Returned s'"
    using outcome_cases by blast
  from recorded_loop [OF this]
  have "requests s' = recorded (early_enter env) (passes env)" by simp
  with assms(3) have "requests s' = [] \<or> end_time env \<noteq> start_time env" by auto
  then have "snd (save_video (requests s') (start_time env) (end_time env)) = Returned ()"
    by (auto simp: save_video_def Let_def)
  with l show ?thesis by (simp add: capture_and_buffer_outcome)
qed

lemma blocks_returns:
  assumes "early_enter env \<or> (\<exists>it \<in> set (passes env). enter it \<noteq> NoEnter)"
    and "\<forall>it \<in> set (passes env). 0 < imageChannelCount (delivered it)
           \<and> (imageChannelBitDepth (delivered it) \<le> 8 \<or> even (imageSize (delivered it)))"
    and "\<forall>b \<in> set (stitched (early_enter env) (passes env)).
           row_shape b = row_shape (hd (stitched (early_enter env) (passes env)))"
  shows "snd (blockscan_main env) = Returned ()"
proof -
  let ?s = "snd (capture_blocks_setup (early_enter env) env)"
  let ?loop = "capture_blocks_loop ?s (passes env)"
  let ?B = "stitched (early_enter env) (passes env)"
  have "snd ?loop \<noteq> StillRunning"
    unfolding capture_blocks_loop_def
    using blocks_flag_shaped by (rule loop_stops) (use assms(1) in simp)
  moreover have "snd ?loop \<noteq> Raised e" for e
    using assms(2) by (rule blocks_never_raise [where R = "row_shape (hd ?B)"]) (use assms(3) in simp)
  ultimately obtain s' where l: "snd ?loop = Returned s'"
    using outcome_cases by blast
  from stitched_loop [OF this] have b: "stitched_blocks s' = ?B" by simp
  have "snd (save_stitched ?B) = Returned ()"
  proof (cases "?B = []")
    case True
    then show ?thesis by (simp add: save_stitched_def)
  next
    case False
    from vstack_agree [OF this, of "row_shape (hd ?B)"] assms(3)
    obtain img where "vstack ?B = Inr img" by blast
    with False show ?thesis by (simp add: save_stitched_def)
  qed
  with l b have "snd (capture_blocks (early_enter env) env) = Returned ()"
    by (simp add: capture_blocks_outcome)
  then show ?thesis
    by (cases "early_enter env") (simp_all add: blockscan_main_def case_prod_beta wait_for_enter_def)
qed

section \<open>What is finalized\<close>

lemma not_finalized: "finalizations tr = 0 \<Longrightarrow> filter is_finalize tr = []"
  by (simp add: finalizations_def)

lemma save_video_finalized:
  assumes "snd (save_video reqs a b) = Returned u"
  shows "filter is_finalize (fst (save_video reqs a b)) =
           [if reqs = [] then Print NoFramesCaptured
            else VideoWrite (max (of_nat (length reqs) / (b - a)) 1)
                   (shape (fst (hd reqs)) ! 1, shape (fst (hd reqs)) ! 0) (map fst reqs)]"
  using assms by (auto simp: save_video_def Let_def hd_map split: if_splits)

lemma save_stitched_finalized:
  assumes "snd (save_stitched blocks) = Returned u"
  shows "(blocks = [] \<and> filter is_finalize (fst (save_stitched blocks)) = [Print NothingToSave])
     \<or> (blocks \<noteq> [] \<and> (\<exists>img. vstack blocks = Inr img
            \<and> filter is_finalize (fst (save_stitched blocks)) = [Imwrite img]))"
  using assms by (auto simp: save_stitched_def split: if_splits sum.splits)

lemma recording_finalized:
  assumes "snd (capture_and_buffer env) = Returned u"
  shows "filter is_finalize (fst (capture_and_buffer env)) =
           [if recorded (early_enter env) (passes env) = [] then Print NoFramesCaptured
            else VideoWrite
                   (max (of_nat (length (recorded (early_enter env) (passes env)))
                           / (end_time env - start_time env)) 1)
                   (shape (fst (hd (recorded (early_enter env) (passes env)))) ! 1,
                    shape (fst (hd (recorded (early_enter env) (passes env)))) ! 0)
                   (map fst (recorded (early_enter env) (passes env)))]"
proof -
  let ?loop = "capture_and_buffer_loop (snd (capture_and_buffer_setup env)) (passes env)"
  from assms obtain s' where l: "snd ?loop = Returned s'"
    and v: "snd (save_video (requests s') (start_time env) (end_time env)) = Returned u"
    by (auto simp: capture_and_buffer_outcome split: outcome.splits)
  from recorded_loop [OF l] have r: "requests s' = recorded (early_enter env) (passes env)"
    by simp
  have "finalizations (fst ?loop) = 0"
    unfolding capture_and_buffer_loop_def
    by (rule loop_no_finalize) (rule recording_body_no_finalize)
  then have f: "filter is_finalize (fst ?loop) = []" by (rule not_finalized)
  have p: "filter is_finalize (fst (prime (map (submit_ok env) [0..<MAX_REQUESTS]) 0)) = []"
    by (rule not_finalized) simp
  from save_video_finalized [OF v] l f p r show ?thesis
    by (simp add: capture_and_buffer_trace)
qed

lemma blocks_finalized:
  assumes "snd (blockscan_main env) = Returned u"
  shows "\<exists>s'. snd (capture_blocks_loop (snd (capture_blocks_setup (early_enter env) env))
                    (passes env)) = Returned s'
     \<and> ((stitched_blocks s' = []
           \<and> filter is_finalize (fst (blockscan_main env)) = [Print NothingToSave])
        \<or> (stitched_blocks s' \<noteq> []
             \<and> (\<exists>img. vstack (stitched_blocks s') = Inr img
                   \<and> filter is_finalize (fst (blockscan_main env)) = [Imwrite img])))"
proof -
  let ?s = "snd (capture_blocks_setup (early_enter env) env)"
  let ?loop = "capture_blocks_loop ?s (passes env)"
  have m: "snd (blockscan_main env) = snd (capture_blocks (early_enter env) env)"
    by (cases "early_enter env") (simp_all add: blockscan_main_def case_prod_beta wait_for_enter_def)
  have t: "filter is_finalize (fst (blockscan_main env))
             = filter is_finalize (fst (capture_blocks (early_enter env) env))"
    by (cases "early_enter env") (simp_all add: blockscan_main_def case_prod_beta wait_for_enter_def)
  from assms m obtain s' where l: "snd ?loop = Returned s'"
    and v: "snd (save_stitched (stitched_blocks s')) = Returned u"
    by (auto simp: capture_blocks_outcome split: outcome.splits)
  have "finalizations (fst ?loop) = 0"
    unfolding capture_blocks_loop_def
    by (rule loop_no_finalize) (rule blocks_body_no_finalize)
  then have f: "filter is_finalize (fst ?loop) = []" by (rule not_finalized)
  have q: "filter is_finalize (map (\<lambda>i. ImageRequestSingle (submit_ok env i)) [0..<5]) = []"
    by (rule not_finalized) simp
  have "filter is_finalize (fst (capture_blocks (early_enter env) env))
          = filter is_finalize (fst (save_stitched (stitched_blocks s')))"
    using l f q by (simp add: capture_blocks_trace)
  with save_stitched_finalized [OF v] t l show ?thesis by simp
qed


lemma rgb16_frame_converted:
  "convert_frame rgb16_frame False
     = Inr ([], Some \<lparr>shape = [1, 2, 3], elems = [0, 255, 0, 1, 1, 128]\<rparr>, False)"
proof -
  have "convert_frame rgb16_frame False = Inr ([], Some (convert_spec rgb16_frame), False)"
    by (rule conforming_is_converted(2)) (simp_all add: rgb16_frame_def)
  then show ?thesis by (simp only: rgb16_converted)
qed

lemma one_frame_recorded:
  "recorded (early_enter one_frame_recording) (passes one_frame_recording)
     = [(\<lparr>shape = [1, 2, 3], elems = [0, 255, 0, 1, 1, 128]\<rparr>, 1)]"
proof -
  have "isOK rgb16_frame" by (simp add: rgb16_frame_def)
  then show ?thesis
    by (simp add: one_frame_recording_def pass_of_def isRequestNrValid_def rgb16_frame_converted)
qed

lemma mono8_block:
  "extract_block mono8_frame = Inr ([], Some \<lparr>shape = [2, 2, 1], elems = [0, 1, 2, 3]\<rparr>)"
  using extract_block_uint8 [of mono8_frame]
  by (simp add: mono8_frame_def raw_block_def from_address_def upt_conv_Cons)

lemma first_pass_stitched:
  "stitched (early_enter enter_in_first_pass) (passes enter_in_first_pass)
     = [\<lparr>shape = [2, 2, 1], elems = [0, 1, 2, 3]\<rparr>]"
proof -
  have "isOK mono8_frame" by (simp add: mono8_frame_def)
  then show ?thesis
    by (simp add: enter_in_first_pass_def pass_of_def isRequestNrValid_def mono8_block)
qed

lemma first_pass_loop:
  "snd (capture_blocks_loop
          (snd (capture_blocks_setup (early_enter enter_in_first_pass) enter_in_first_pass))
          (passes enter_in_first_pass))
     = Returned \<lparr>stop_acquisition = True, previous_request = Some 0,
                  stitched_blocks = [\<lparr>shape = [2, 2, 1], elems = [0, 1, 2, 3]\<rparr>]\<rparr>"
proof -
  have "capture_blocks_body
          \<lparr>stop_acquisition = False, previous_request = None, stitched_blocks = []\<rparr>
          ((pass_of 0 mono8_frame)\<lparr>enter := EnterBeforeWait\<rparr>)
        = ([SetStop, ImageRequestWaitFor 0, ImageRequestSingle True],
           Inr \<lparr>stop_acquisition = True, previous_request = Some 0,
                stitched_blocks = [\<lparr>shape = [2, 2, 1], elems = [0, 1, 2, 3]\<rparr>]\<rparr>)"
    using mono8_block
    by (simp add: capture_blocks_body_def pass_of_def isRequestNrValid_def wait_actions_def
          wait_for_enter_def release_and_requeue_def Let_def mono8_frame_def)
  then show ?thesis
    by (simp add: capture_blocks_start enter_in_first_pass_def)
qed



end
